theory Spec2Isabelle
  imports Main "HOL-Library.AList" "HOL-Library.Multiset"
begin

section \<open>Data model of backend/download\_manager.go\<close>

text \<open>
  The download manager is a concurrent Go program: API calls run on caller goroutines,
  \<^verbatim>\<open>Start\<close> spawns worker goroutines, and all of them share one
  \<^verbatim>\<open>DownloadManager\<close> struct. The embedding is an interleaving semantics. Every
  goroutine has a program counter that names the source line it stands at; one step of
  the model is one critical section under \<^verbatim>\<open>dm.mu\<close>, one channel operation, one
  check of a context, or one call of the progress callback. A schedule (a list of
  actions) picks which goroutine moves next and what the fetch collaborator returns.
\<close>

text \<open>
  A \<^verbatim>\<open>context.Context\<close> made by \<^verbatim>\<open>context.WithCancel\<close> is a number; the
  contexts whose \<^verbatim>\<open>Done()\<close> channel is closed are a set of the state.
\<close>

type_synonym token = nat

text \<open>\<^verbatim>\<open>type DownloadJob struct\<close>, lines 26--33. Go's \<^verbatim>\<open>int\<close> is \<^typ>\<open>int\<close>: the
  manager never does arithmetic on a track id.\<close>

record DownloadJob =
  TrackID :: int
  OutputDir :: string
  Title :: string
  Artist :: string
  ctx :: "token option"
  cancelFunc :: "token option"

text \<open>\<^verbatim>\<open>type DownloadResult struct\<close> (backend/source\_qobuz.go, lines 571--582). The
  manager reads the field \<^verbatim>\<open>Success\<close> only.\<close>

record DownloadResult =
  res_TrackID :: int
  res_Title :: string
  res_Artist :: string
  Album :: string
  FilePath :: string
  FileSize :: int
  Quality :: string
  CoverURL :: string
  Success :: bool
  res_Error :: string

text \<open>The values of Go's \<^verbatim>\<open>error\<close> that the manager makes or passes on:
  \<^verbatim>\<open>"download manager not running"\<close> (line 211),
  \<^verbatim>\<open>"track %d is not currently downloading"\<close> (line 277), and whatever the fetch
  collaborator returned.\<close>

datatype error = NotRunning | JobNotActive int | FetchError string

text \<open>The run-time panics of Go that the code of the manager can raise.\<close>

datatype panic = NilDereference | SendOnClosedChannel | CloseOfClosedChannel | NegativeWaitGroup

text \<open>The status strings handed to the progress callback.\<close>

datatype status = StQueued | StDownloading | StCompleted | StError | StCancelled

fun status_string :: "status \<Rightarrow> string" where
  "status_string StQueued = ''queued''"
| "status_string StDownloading = ''downloading''"
| "status_string StCompleted = ''completed''"
| "status_string StError = ''error''"
| "status_string StCancelled = ''cancelled''"

text \<open>One call \<^verbatim>\<open>dm.onProgress(trackID, status, result)\<close>.\<close>

datatype event = Event int status "DownloadResult option"

fun event_track :: "event \<Rightarrow> int" where
  "event_track (Event i st r) = i"

fun event_status :: "event \<Rightarrow> status" where
  "event_status (Event i st r) = st"


text \<open>Goroutines: the caller of the \<open>i\<close>-th API invocation, or the \<open>w\<close>-th worker
  spawned.\<close>

datatype tid = Caller nat | Worker nat

subsection \<open>Program counters\<close>

text \<open>Worker goroutine, \<^verbatim>\<open>worker\<close> (lines 112--133) and \<^verbatim>\<open>processJob\<close>
  (lines 136--204). The arguments are the local variables alive at that point:
  \<^verbatim>\<open>job\<close>, \<^verbatim>\<open>result\<close>, \<^verbatim>\<open>err\<close>, \<^verbatim>\<open>cancelled\<close>.\<close>

datatype wpc =
    W_Range                                                              \<comment> \<open>line 115\<close>
  | W_PauseWait DownloadJob                                              \<comment> \<open>lines 117--121\<close>
  | W_CheckRunning DownloadJob                                           \<comment> \<open>lines 124--129\<close>
  | P_PreCheck DownloadJob                                               \<comment> \<open>lines 138--140\<close>
  | P_PreCancelled DownloadJob                                           \<comment> \<open>lines 141--144\<close>
  | P_NotifyStart DownloadJob                                            \<comment> \<open>lines 150--152\<close>
  | P_MarkActive DownloadJob                                             \<comment> \<open>lines 155--159\<close>
  | P_Download DownloadJob                                               \<comment> \<open>line 162\<close>
  | P_PostCheck DownloadJob "DownloadResult option" "error option"       \<comment> \<open>lines 165--172\<close>
  | P_RemoveActive DownloadJob "DownloadResult option" "error option" bool   \<comment> \<open>lines 175--177\<close>
  | P_Handle DownloadJob "DownloadResult option" "error option" bool     \<comment> \<open>lines 180--197\<close>
  | P_NotifyError DownloadJob "DownloadResult option" "error option" bool    \<comment> \<open>lines 190--192\<close>
  | P_SendResult DownloadJob "DownloadResult option" "error option" bool \<comment> \<open>lines 200--203\<close>
  | W_Exited                                                             \<comment> \<open>returned\<close>

text \<open>\<^verbatim>\<open>QueueDownload\<close> (lines 207--236); the arguments of \<^verbatim>\<open>Q_Check\<close> and
  \<^verbatim>\<open>Q_Make\<close> are \<^verbatim>\<open>trackID, outputDir, title, artist\<close>.\<close>

datatype qpc =
    Q_Check int string string string       \<comment> \<open>lines 208--213\<close>
  | Q_Make int string string string        \<comment> \<open>lines 216--225\<close>
  | Q_Send DownloadJob                     \<comment> \<open>line 228\<close>
  | Q_Notify int                           \<comment> \<open>lines 231--235\<close>

datatype qres = Q_Cont qpc | Q_Done "error option"

text \<open>The API of the manager, and what a call returned.\<close>

datatype call =
    Start
  | Stop
  | QueueDownload int string string string
  | CancelDownload int
  | RetryAllFailed
  | ClearFailed
  | PauseQueue
  | ResumeQueue

datatype ret = RetUnit | RetErr "error option" | RetBool bool | RetInt nat

text \<open>Caller goroutine. \<^verbatim>\<open>RA_Call rest retried q\<close> is \<^verbatim>\<open>RetryAllFailed\<close> inside
  its loop (lines 302--307), within the call of \<^verbatim>\<open>QueueDownload\<close> at \<open>q\<close>, with
  \<open>rest\<close> the jobs of \<^verbatim>\<open>jobsToRetry\<close> still to come.\<close>

datatype cpc =
    Start_Check                            \<comment> \<open>lines 80--86\<close>
  | Start_Spawn                            \<comment> \<open>lines 89--92\<close>
  | Stop_Check                             \<comment> \<open>lines 97--105\<close>
  | Stop_Close                             \<comment> \<open>line 107\<close>
  | Stop_Wait                              \<comment> \<open>line 108\<close>
  | QD qpc
  | CD_Entry int                           \<comment> \<open>lines 271--285\<close>
  | RA_Snapshot                            \<comment> \<open>lines 290--298\<close>
  | RA_Call "DownloadJob list" nat qpc     \<comment> \<open>lines 302--307\<close>
  | CF_Entry                               \<comment> \<open>lines 321--325\<close>
  | PQ_Entry                               \<comment> \<open>lines 330--336\<close>
  | RQ_Entry                               \<comment> \<open>lines 341--348\<close>
  | Returned ret

subsection \<open>The state\<close>

text \<open>
  The fields of \<^verbatim>\<open>type DownloadManager struct\<close> (lines 10--23) come first. A Go map
  is an association list with distinct keys; a buffered channel is the list of what it
  holds, with a flag once it is closed; \<^verbatim>\<open>wg\<close> is the counter of the wait group;
  \<^verbatim>\<open>onProgress\<close> says whether a callback is installed, and calling it appends to
  \<open>log\<close>, which is what the listener sees, each entry tagged with the goroutine that
  made the call. \<^verbatim>\<open>mu\<close> and \<^verbatim>\<open>pauseCond\<close> are the atomicity of the steps and
  the blocking of a step; \<^verbatim>\<open>service\<close> is the fetch collaborator, whose answers the
  schedule supplies. The remaining fields are the Go runtime: the cancelled contexts,
  the next context to allocate, and the goroutines.
\<close>

record state =
  workers :: nat
  queue :: "DownloadJob list"
  queue_closed :: bool
  results :: "DownloadResult option list"
  activeJobs :: "(int \<times> DownloadJob) list"
  failedJobs :: "(int \<times> DownloadJob) list"
  wg :: nat
  running :: bool
  paused :: bool
  onProgress :: bool
  ctx_cancelled :: "token set"
  next_ctx :: token
  goroutines :: "wpc list"
  calls :: "(call \<times> cpc) list"
  log :: "(tid \<times> event) list"

text \<open>The capacity of \<^verbatim>\<open>queue\<close> and of \<^verbatim>\<open>results\<close> (lines 64--65).\<close>

definition queue_cap :: nat where
  "queue_cap = 1000"

text \<open>\<^verbatim>\<open>NewDownloadManager\<close>, lines 53--71.\<close>

definition NewDownloadManager :: "int \<Rightarrow> state" where
  "NewDownloadManager n =
     \<lparr> workers = (if n \<le> 0 then 3 else if n > 10 then 10 else nat n),
       queue = [], queue_closed = False, results = [],
       activeJobs = [], failedJobs = [], wg = 0,
       running = False, paused = False, onProgress = False,
       ctx_cancelled = {}, next_ctx = 0, goroutines = [], calls = [], log = [] \<rparr>"

text \<open>\<^verbatim>\<open>SetProgressCallback\<close>, lines 74--76.\<close>

definition SetProgressCallback :: "state \<Rightarrow> state" where
  "SetProgressCallback s = s\<lparr>onProgress := True\<rparr>"

text \<open>\<^verbatim>\<open>if dm.onProgress != nil { dm.onProgress(trackID, status, result) }\<close>.\<close>

definition notify :: "tid \<Rightarrow> int \<Rightarrow> status \<Rightarrow> DownloadResult option \<Rightarrow> state \<Rightarrow> state" where
  "notify t i st r s =
     (if onProgress s then s\<lparr>log := log s @ [(t, Event i st r)]\<rparr> else s)"

text \<open>\<^verbatim>\<open>if job.ctx != nil { select { case <-job.ctx.Done(): ... default: } }\<close>: whether
  the branch of the closed \<^verbatim>\<open>Done()\<close> channel is taken.\<close>

definition ctx_done :: "DownloadJob \<Rightarrow> state \<Rightarrow> bool" where
  "ctx_done job s = (case ctx job of None \<Rightarrow> False | Some c \<Rightarrow> c \<in> ctx_cancelled s)"

subsection \<open>Calls that are one critical section\<close>

text \<open>\<^verbatim>\<open>GetActiveCount\<close>, \<^verbatim>\<open>GetQueueLength\<close>, \<^verbatim>\<open>GetFailedCount\<close>,
  \<^verbatim>\<open>IsRunning\<close>, \<^verbatim>\<open>IsPaused\<close>.\<close>

definition GetActiveCount :: "state \<Rightarrow> nat" where
  "GetActiveCount s = length (activeJobs s)"

definition GetQueueLength :: "state \<Rightarrow> nat" where
  "GetQueueLength s = length (queue s)"

definition GetFailedCount :: "state \<Rightarrow> nat" where
  "GetFailedCount s = length (failedJobs s)"

definition IsRunning :: "state \<Rightarrow> bool" where
  "IsRunning s = running s"

definition IsPaused :: "state \<Rightarrow> bool" where
  "IsPaused s = paused s"

text \<open>\<^verbatim>\<open>CancelDownload\<close>, lines 270--286.\<close>

definition cancelDownload :: "int \<Rightarrow> state \<Rightarrow> state \<times> error option" where
  "cancelDownload trackID s =
     (case map_of (activeJobs s) trackID of
        None \<Rightarrow> (s, Some (JobNotActive trackID))
      | Some job \<Rightarrow>
          (case cancelFunc job of
             None \<Rightarrow> (s, None)
           | Some c \<Rightarrow> (s\<lparr>ctx_cancelled := insert c (ctx_cancelled s)\<rparr>, None)))"

text \<open>\<^verbatim>\<open>ClearFailed\<close>, lines 320--326.\<close>

definition clearFailed :: "state \<Rightarrow> state \<times> nat" where
  "clearFailed s = (s\<lparr>failedJobs := []\<rparr>, length (failedJobs s))"

text \<open>\<^verbatim>\<open>PauseQueue\<close>, lines 329--337.\<close>

definition pauseQueue :: "state \<Rightarrow> state \<times> bool" where
  "pauseQueue s = (if paused s then (s, False) else (s\<lparr>paused := True\<rparr>, True))"

text \<open>\<^verbatim>\<open>ResumeQueue\<close>, lines 340--349. The broadcast on \<^verbatim>\<open>pauseCond\<close> is the
  re-evaluation of the wait condition by every worker at \<^const>\<open>W_PauseWait\<close>.\<close>

definition resumeQueue :: "state \<Rightarrow> state \<times> bool" where
  "resumeQueue s = (if \<not> paused s then (s, False) else (s\<lparr>paused := False\<rparr>, True))"

subsection \<open>Steps of a goroutine\<close>

datatype 'a outcome = Next 'a | Blocked | Panic panic

text \<open>\<^verbatim>\<open>defer dm.wg.Done()\<close> when a worker returns.\<close>

definition worker_exit :: "state \<Rightarrow> (wpc \<times> state) outcome" where
  "worker_exit s =
     (if wg s = 0 then Panic NegativeWaitGroup else Next (W_Exited, s\<lparr>wg := wg s - 1\<rparr>))"

text \<open>Lines 184--192: the branch \<^verbatim>\<open>err != nil || !result.Success\<close> records the job
  in \<^verbatim>\<open>failedJobs\<close>.\<close>

definition track_failed :: "DownloadJob \<Rightarrow> state \<Rightarrow> state" where
  "track_failed job s = s\<lparr>failedJobs := AList.update (TrackID job) job (failedJobs s)\<rparr>"

text \<open>One step of worker \<open>w\<close> standing at \<open>pc\<close>. A worker at \<^const>\<open>P_Download\<close> is
  inside \<^verbatim>\<open>dm.service.DownloadTrack\<close> and moves by the action \<open>Fetch\<close> below.\<close>

definition worker_step :: "nat \<Rightarrow> wpc \<Rightarrow> state \<Rightarrow> (wpc \<times> state) outcome" where
  "worker_step w pc s =
     (case pc of
        W_Range \<Rightarrow>
          (case queue s of
             job # rest \<Rightarrow> Next (W_PauseWait job, s\<lparr>queue := rest\<rparr>)
           | [] \<Rightarrow> if queue_closed s then worker_exit s else Blocked)
      | W_PauseWait job \<Rightarrow>
          if paused s \<and> running s then Blocked else Next (W_CheckRunning job, s)
      | W_CheckRunning job \<Rightarrow>
          if \<not> running s then worker_exit s else Next (P_PreCheck job, s)
      | P_PreCheck job \<Rightarrow>
          if ctx_done job s then Next (P_PreCancelled job, s) else Next (P_NotifyStart job, s)
      | P_PreCancelled job \<Rightarrow>
          Next (W_Range, notify (Worker w) (TrackID job) StCancelled None s)
      | P_NotifyStart job \<Rightarrow>
          Next (P_MarkActive job, notify (Worker w) (TrackID job) StDownloading None s)
      | P_MarkActive job \<Rightarrow>
          Next (P_Download job,
                s\<lparr>activeJobs := AList.update (TrackID job) job (activeJobs s),
                  failedJobs := AList.delete (TrackID job) (failedJobs s)\<rparr>)
      | P_Download job \<Rightarrow> Blocked
      | P_PostCheck job result err \<Rightarrow>
          Next (P_RemoveActive job result err (ctx_done job s), s)
      | P_RemoveActive job result err cancelled \<Rightarrow>
          Next (P_Handle job result err cancelled,
                s\<lparr>activeJobs := AList.delete (TrackID job) (activeJobs s)\<rparr>)
      | P_Handle job result err cancelled \<Rightarrow>
          if cancelled then
            Next (P_SendResult job result err cancelled,
                  notify (Worker w) (TrackID job) StCancelled None s)
          else
            (case err of
               Some e \<Rightarrow> Next (P_NotifyError job result err cancelled, track_failed job s)
             | None \<Rightarrow>
                 (case result of
                    None \<Rightarrow> Panic NilDereference
                  | Some r \<Rightarrow>
                      if \<not> Success r
                      then Next (P_NotifyError job result err cancelled, track_failed job s)
                      else Next (P_SendResult job result err cancelled,
                                 notify (Worker w) (TrackID job) StCompleted result s)))
      | P_NotifyError job result err cancelled \<Rightarrow>
          Next (P_SendResult job result err cancelled,
                notify (Worker w) (TrackID job) StError result s)
      | P_SendResult job result err cancelled \<Rightarrow>
          Next (W_Range,
                if length (results s) < queue_cap then s\<lparr>results := results s @ [result]\<rparr> else s)
      | W_Exited \<Rightarrow> Blocked)"

text \<open>The return of \<^verbatim>\<open>dm.service.DownloadTrack(job.TrackID, job.OutputDir)\<close>, line 162,
  with the two values the collaborator returned.\<close>

definition fetch_step :: "DownloadResult option \<Rightarrow> error option \<Rightarrow> wpc \<Rightarrow> state \<Rightarrow> (wpc \<times> state) outcome" where
  "fetch_step result err pc s =
     (case pc of P_Download job \<Rightarrow> Next (P_PostCheck job result err, s) | _ \<Rightarrow> Blocked)"

text \<open>One step of \<^verbatim>\<open>QueueDownload\<close> run by caller \<open>i\<close>. A full queue blocks the send;
  a closed one panics.\<close>

definition q_step :: "nat \<Rightarrow> qpc \<Rightarrow> state \<Rightarrow> (qres \<times> state) outcome" where
  "q_step i q s =
     (case q of
        Q_Check trackID outputDir title artist \<Rightarrow>
          if \<not> running s then Next (Q_Done (Some NotRunning), s)
          else Next (Q_Cont (Q_Make trackID outputDir title artist), s)
      | Q_Make trackID outputDir title artist \<Rightarrow>
          Next (Q_Cont (Q_Send \<lparr> TrackID = trackID, OutputDir = outputDir, Title = title,
                                  Artist = artist, ctx = Some (next_ctx s),
                                  cancelFunc = Some (next_ctx s) \<rparr>),
                s\<lparr>next_ctx := Suc (next_ctx s)\<rparr>)
      | Q_Send job \<Rightarrow>
          if queue_closed s then Panic SendOnClosedChannel
          else if length (queue s) \<ge> queue_cap then Blocked
          else Next (Q_Cont (Q_Notify (TrackID job)), s\<lparr>queue := queue s @ [job]\<rparr>)
      | Q_Notify trackID \<Rightarrow>
          Next (Q_Done None, notify (Caller i) trackID StQueued None s))"

text \<open>The loop of \<^verbatim>\<open>RetryAllFailed\<close>, lines 301--309, positioned before the jobs
  \<open>jobs\<close> with \<open>retried\<close> counted so far: it enters \<^verbatim>\<open>QueueDownload\<close> for the next
  job or returns the count.\<close>

fun retry_next :: "DownloadJob list \<Rightarrow> nat \<Rightarrow> cpc" where
  "retry_next [] retried = Returned (RetInt retried)"
| "retry_next (job # rest) retried =
     RA_Call rest retried (Q_Check (TrackID job) (OutputDir job) (Title job) (Artist job))"

text \<open>One step of caller \<open>i\<close> standing at \<open>pc\<close>. \<^const>\<open>RA_Snapshot\<close> moves by the
  action \<open>Snap\<close> below, which carries the order in which Go iterates the map.\<close>

definition caller_step :: "nat \<Rightarrow> cpc \<Rightarrow> state \<Rightarrow> (cpc \<times> state) outcome" where
  "caller_step i pc s =
     (case pc of
        Start_Check \<Rightarrow>
          if running s then Next (Returned RetUnit, s)
          else Next (Start_Spawn, s\<lparr>running := True\<rparr>)
      | Start_Spawn \<Rightarrow>
          Next (Returned RetUnit,
                s\<lparr>wg := wg s + workers s,
                  goroutines := goroutines s @ replicate (workers s) W_Range\<rparr>)
      | Stop_Check \<Rightarrow>
          if \<not> running s then Next (Returned RetUnit, s)
          else Next (Stop_Close, s\<lparr>running := False, paused := False\<rparr>)
      | Stop_Close \<Rightarrow>
          if queue_closed s then Panic CloseOfClosedChannel
          else Next (Stop_Wait, s\<lparr>queue_closed := True\<rparr>)
      | Stop_Wait \<Rightarrow>
          if wg s = 0 then Next (Returned RetUnit, s) else Blocked
      | QD q \<Rightarrow>
          (case q_step i q s of
             Next (Q_Cont q', s') \<Rightarrow> Next (QD q', s')
           | Next (Q_Done e, s') \<Rightarrow> Next (Returned (RetErr e), s')
           | Blocked \<Rightarrow> Blocked
           | Panic p \<Rightarrow> Panic p)
      | CD_Entry trackID \<Rightarrow>
          (case cancelDownload trackID s of (s', e) \<Rightarrow> Next (Returned (RetErr e), s'))
      | RA_Snapshot \<Rightarrow> Blocked
      | RA_Call rest retried q \<Rightarrow>
          (case q_step i q s of
             Next (Q_Cont q', s') \<Rightarrow> Next (RA_Call rest retried q', s')
           | Next (Q_Done e, s') \<Rightarrow>
               Next (retry_next rest (if e = None then Suc retried else retried), s')
           | Blocked \<Rightarrow> Blocked
           | Panic p \<Rightarrow> Panic p)
      | CF_Entry \<Rightarrow>
          (case clearFailed s of (s', n) \<Rightarrow> Next (Returned (RetInt n), s'))
      | PQ_Entry \<Rightarrow>
          (case pauseQueue s of (s', b) \<Rightarrow> Next (Returned (RetBool b), s'))
      | RQ_Entry \<Rightarrow>
          (case resumeQueue s of (s', b) \<Rightarrow> Next (Returned (RetBool b), s'))
      | Returned r \<Rightarrow> Blocked)"

text \<open>Lines 290--298 of \<^verbatim>\<open>RetryAllFailed\<close>, one critical section: \<^verbatim>\<open>jobsToRetry\<close>
  becomes the values of \<^verbatim>\<open>failedJobs\<close> in the order \<open>jobs\<close> of Go's map iteration,
  and the map is replaced by an empty one.\<close>

definition snapshot_step :: "DownloadJob list \<Rightarrow> cpc \<Rightarrow> state \<Rightarrow> (cpc \<times> state) outcome" where
  "snapshot_step jobs pc s =
     (case pc of
        RA_Snapshot \<Rightarrow>
          if mset jobs = mset (map snd (failedJobs s))
          then Next (retry_next jobs 0, s\<lparr>failedJobs := []\<rparr>)
          else Blocked
      | _ \<Rightarrow> Blocked)"

subsection \<open>Schedules\<close>

fun entry :: "call \<Rightarrow> cpc" where
  "entry Start = Start_Check"
| "entry Stop = Stop_Check"
| "entry (QueueDownload trackID outputDir title artist) = QD (Q_Check trackID outputDir title artist)"
| "entry (CancelDownload trackID) = CD_Entry trackID"
| "entry RetryAllFailed = RA_Snapshot"
| "entry ClearFailed = CF_Entry"
| "entry PauseQueue = PQ_Entry"
| "entry ResumeQueue = RQ_Entry"

datatype action =
    Invoke call                                        \<comment> \<open>a new caller goroutine enters a call\<close>
  | C nat                                              \<comment> \<open>caller \<open>i\<close> moves\<close>
  | Snap nat "DownloadJob list"                        \<comment> \<open>caller \<open>i\<close> takes the snapshot of \<^verbatim>\<open>RetryAllFailed\<close>\<close>
  | W nat                                              \<comment> \<open>worker \<open>w\<close> moves\<close>
  | Fetch nat "DownloadResult option" "error option"   \<comment> \<open>the collaborator returns to worker \<open>w\<close>\<close>

definition set_caller :: "nat \<Rightarrow> (cpc \<times> state) outcome \<Rightarrow> state outcome" where
  "set_caller i r =
     (case r of
        Next (pc', s') \<Rightarrow> Next (s'\<lparr>calls := (calls s')[i := (fst (calls s' ! i), pc')]\<rparr>)
      | Blocked \<Rightarrow> Blocked
      | Panic p \<Rightarrow> Panic p)"

definition set_worker :: "nat \<Rightarrow> (wpc \<times> state) outcome \<Rightarrow> state outcome" where
  "set_worker w r =
     (case r of
        Next (pc', s') \<Rightarrow> Next (s'\<lparr>goroutines := (goroutines s')[w := pc']\<rparr>)
      | Blocked \<Rightarrow> Blocked
      | Panic p \<Rightarrow> Panic p)"

fun step :: "action \<Rightarrow> state \<Rightarrow> state outcome" where
  "step (Invoke c) s = Next (s\<lparr>calls := calls s @ [(c, entry c)]\<rparr>)"
| "step (C i) s =
     (if i < length (calls s) then set_caller i (caller_step i (snd (calls s ! i)) s) else Blocked)"
| "step (Snap i jobs) s =
     (if i < length (calls s) then set_caller i (snapshot_step jobs (snd (calls s ! i)) s) else Blocked)"
| "step (W w) s =
     (if w < length (goroutines s) then set_worker w (worker_step w (goroutines s ! w) s) else Blocked)"
| "step (Fetch w result err) s =
     (if w < length (goroutines s) then set_worker w (fetch_step result err (goroutines s ! w) s) else Blocked)"

fun run :: "action list \<Rightarrow> state \<Rightarrow> state outcome" where
  "run [] s = Next s"
| "run (a # as) s = (case step a s of Next s' \<Rightarrow> run as s' | Blocked \<Rightarrow> Blocked | Panic p \<Rightarrow> Panic p)"

text \<open>What goroutine \<open>t\<close> passed to the callback between the states \<open>s\<close> and \<open>s'\<close>.\<close>

definition emitted_by :: "tid \<Rightarrow> state \<Rightarrow> state \<Rightarrow> event list" where
  "emitted_by t s s' = map snd (filter (\<lambda>p. fst p = t) (drop (length (log s)) (log s')))"

subsection \<open>Executions of \<^verbatim>\<open>processJob\<close>\<close>

text \<open>The goroutine that an action moves.\<close>

fun actor :: "action \<Rightarrow> tid option" where
  "actor (Invoke c) = None"
| "actor (C i) = Some (Caller i)"
| "actor (Snap i jobs) = Some (Caller i)"
| "actor (W w) = Some (Worker w)"
| "actor (Fetch w result err) = Some (Worker w)"

text \<open>Whether a worker stands inside \<^verbatim>\<open>processJob\<close>.\<close>

fun in_processJob :: "wpc \<Rightarrow> bool" where
  "in_processJob W_Range = False"
| "in_processJob (W_PauseWait job) = False"
| "in_processJob (W_CheckRunning job) = False"
| "in_processJob W_Exited = False"
| "in_processJob pc = True"

text \<open>
  \<open>until_return w acts s = Some s'\<close>: started in \<open>s\<close> with worker \<open>w\<close> inside
  \<^verbatim>\<open>processJob\<close>, the schedule \<open>acts\<close> (any interleaving with the other goroutines)
  runs without a panic, worker \<open>w\<close> stays inside that call of \<^verbatim>\<open>processJob\<close> up to
  the last action, and the last action is its return, in state \<open>s'\<close>.
\<close>

fun until_return :: "nat \<Rightarrow> action list \<Rightarrow> state \<Rightarrow> state option" where
  "until_return w [] s = None"
| "until_return w (a # as) s =
     (case step a s of
        Next s' \<Rightarrow>
          if w < length (goroutines s') \<and> in_processJob (goroutines s' ! w)
          then until_return w as s'
          else if as = [] then Some s' else None
      | Blocked \<Rightarrow> None
      | Panic p \<Rightarrow> None)"

text \<open>The event that lines 180--197 pass to the callback, from the locals
  \<^verbatim>\<open>job\<close>, \<^verbatim>\<open>result\<close>, \<^verbatim>\<open>err\<close>, \<^verbatim>\<open>cancelled\<close>, when they do not panic.\<close>

definition handle_event :: "DownloadJob \<Rightarrow> DownloadResult option \<Rightarrow> error option \<Rightarrow> bool \<Rightarrow> event" where
  "handle_event job result err cancelled =
     (if cancelled then Event (TrackID job) StCancelled None
      else if err = None \<and> (case result of Some r \<Rightarrow> Success r | None \<Rightarrow> False)
      then Event (TrackID job) StCompleted result
      else Event (TrackID job) StError result)"

text \<open>The job that a goroutine holds in its local variable \<^verbatim>\<open>job\<close>.\<close>

fun wpc_job :: "wpc \<Rightarrow> DownloadJob option" where
  "wpc_job W_Range = None"
| "wpc_job W_Exited = None"
| "wpc_job (W_PauseWait job) = Some job"
| "wpc_job (W_CheckRunning job) = Some job"
| "wpc_job (P_PreCheck job) = Some job"
| "wpc_job (P_PreCancelled job) = Some job"
| "wpc_job (P_NotifyStart job) = Some job"
| "wpc_job (P_MarkActive job) = Some job"
| "wpc_job (P_Download job) = Some job"
| "wpc_job (P_PostCheck job result err) = Some job"
| "wpc_job (P_RemoveActive job result err cancelled) = Some job"
| "wpc_job (P_Handle job result err cancelled) = Some job"
| "wpc_job (P_NotifyError job result err cancelled) = Some job"
| "wpc_job (P_SendResult job result err cancelled) = Some job"

fun qpc_job :: "qpc \<Rightarrow> DownloadJob option" where
  "qpc_job (Q_Send job) = Some job"
| "qpc_job q = None"

fun cpc_job :: "cpc \<Rightarrow> DownloadJob option" where
  "cpc_job (QD q) = qpc_job q"
| "cpc_job (RA_Call rest retried q) = qpc_job q"
| "cpc_job pc = None"

text \<open>
  \<open>exclusive w job s\<close>: the pointer \<^verbatim>\<open>job\<close> is held by worker \<open>w\<close> alone. It is not in
  the queue, no other worker and no caller holds it, it is not a value of
  \<^verbatim>\<open>failedJobs\<close>, and its context was allocated.
\<close>

definition ctx_allocated :: "DownloadJob \<Rightarrow> state \<Rightarrow> bool" where
  "ctx_allocated job s = (case ctx job of Some c \<Rightarrow> c < next_ctx s | None \<Rightarrow> False)"

definition exclusive :: "nat \<Rightarrow> DownloadJob \<Rightarrow> state \<Rightarrow> bool" where
  "exclusive w job s =
     (job \<notin> set (queue s) \<and> job \<notin> snd ` set (failedJobs s)
      \<and> (\<forall>v < length (goroutines s). v \<noteq> w \<longrightarrow> wpc_job (goroutines s ! v) \<noteq> Some job)
      \<and> (\<forall>c \<in> set (calls s). cpc_job (snd c) \<noteq> Some job)
      \<and> ctx_allocated job s)"

section \<open>Concrete scenarios\<close>

text \<open>A manager with one worker and a callback installed, as the application wires it
  (\<^verbatim>\<open>NewDownloadManager\<close>, then \<^verbatim>\<open>SetProgressCallback\<close>, then \<^verbatim>\<open>Start\<close>).\<close>

definition demo_init :: state where
  "demo_init = SetProgressCallback (NewDownloadManager 1)"

definition demo_job :: "int \<Rightarrow> token \<Rightarrow> DownloadJob" where
  "demo_job i c =
     \<lparr> TrackID = i, OutputDir = ''out'', Title = ''t'', Artist = ''a'',
       ctx = Some c, cancelFunc = Some c \<rparr>"

definition demo_queue :: "int \<Rightarrow> call" where
  "demo_queue i = QueueDownload i ''out'' ''t'' ''a''"

definition demo_ok :: DownloadResult where
  "demo_ok =
     \<lparr> res_TrackID = 7, res_Title = ''t'', res_Artist = ''a'', Album = ''al'',
       FilePath = ''out/t.flac'', FileSize = 1, Quality = ''FLAC LOSSLESS'', CoverURL = [],
       Success = True, res_Error = [] \<rparr>"

definition demo_fail :: DownloadResult where
  "demo_fail = demo_ok\<lparr> Success := False, res_Error := ''network timeout'' \<rparr>"

text \<open>Track 7 is inside the fetch and track 8 waits in the queue.\<close>

definition sched_downloading :: "action list" where
  "sched_downloading =
     [Invoke Start, C 0, C 0,
      Invoke (demo_queue 7), C 1, C 1, C 1, C 1,
      W 0, W 0, W 0, W 0, W 0, W 0,
      Invoke (demo_queue 8), C 2, C 2, C 2, C 2]"

definition st_downloading :: state where
  "st_downloading =
     demo_init\<lparr> running := True, wg := 1, next_ctx := 2,
       queue := [demo_job 8 1],
       activeJobs := [(7, demo_job 7 0)],
       goroutines := [P_Download (demo_job 7 0)],
       calls := [(Start, Returned RetUnit), (demo_queue 7, Returned (RetErr None)),
                 (demo_queue 8, Returned (RetErr None))],
       log := [(Caller 1, Event 7 StQueued None), (Worker 0, Event 7 StDownloading None),
               (Caller 2, Event 8 StQueued None)] \<rparr>"

text \<open>The queue is paused and the worker waits at the gate with track 7.\<close>

definition sched_paused :: "action list" where
  "sched_paused =
     [Invoke Start, C 0, C 0, Invoke PauseQueue, C 1,
      Invoke (demo_queue 7), C 2, C 2, C 2, C 2, W 0]"

definition st_paused :: state where
  "st_paused =
     demo_init\<lparr> running := True, paused := True, wg := 1, next_ctx := 1,
       goroutines := [W_PauseWait (demo_job 7 0)],
       calls := [(Start, Returned RetUnit), (PauseQueue, Returned (RetBool True)),
                 (demo_queue 7, Returned (RetErr None))],
       log := [(Caller 2, Event 7 StQueued None)] \<rparr>"

text \<open>Everything goroutine \<open>t\<close> has passed to the callback so far.\<close>

definition events_of :: "tid \<Rightarrow> state \<Rightarrow> event list" where
  "events_of t s = map snd (filter (\<lambda>p. fst p = t) (log s))"

text \<open>A worker about to enter the lines 155--159 has told the listener \<open>downloading\<close>
  for its job, and nothing after that.\<close>

definition told_downloading :: "state \<Rightarrow> bool" where
  "told_downloading s =
     (onProgress s \<and>
      (\<forall>w job. w < length (goroutines s) \<and> goroutines s ! w = P_MarkActive job \<longrightarrow>
         (\<exists>pre. events_of (Worker w) s = pre @ [Event (TrackID job) StDownloading None])))"

text \<open>Track 7 has been announced as \<open>downloading\<close> and is not registered yet.\<close>

definition sched_window :: "action list" where
  "sched_window =
     [Invoke Start, C 0, C 0,
      Invoke (demo_queue 7), C 1, C 1, C 1, C 1,
      W 0, W 0, W 0, W 0, W 0]"

definition st_window :: state where
  "st_window =
     demo_init\<lparr> running := True, wg := 1, next_ctx := 1,
       goroutines := [P_MarkActive (demo_job 7 0)],
       calls := [(Start, Returned RetUnit), (demo_queue 7, Returned (RetErr None))],
       log := [(Caller 1, Event 7 StQueued None), (Worker 0, Event 7 StDownloading None)] \<rparr>"

text \<open>The track id a call of \<^verbatim>\<open>QueueDownload\<close> works on.\<close>

fun qpc_track :: "qpc \<Rightarrow> int" where
  "qpc_track (Q_Check trackID outputDir title artist) = trackID"
| "qpc_track (Q_Make trackID outputDir title artist) = trackID"
| "qpc_track (Q_Send job) = TrackID job"
| "qpc_track (Q_Notify trackID) = trackID"

text \<open>
  What a call \<^verbatim>\<open>QueueDownload(t, ...)\<close> at \<open>pc\<close> has told the listener (\<open>evs\<close>): nothing
  while it runs and when it returned an error, and exactly \<open>queued\<close> for \<open>t\<close> once it
  returned \<^verbatim>\<open>nil\<close>.
\<close>

fun queue_call_ok :: "int \<Rightarrow> event list \<Rightarrow> cpc \<Rightarrow> bool" where
  "queue_call_ok t evs (QD q) = (qpc_track q = t \<and> evs = [])"
| "queue_call_ok t evs (Returned (RetErr None)) = (evs = [Event t StQueued None])"
| "queue_call_ok t evs (Returned (RetErr (Some e))) = (evs = [])"
| "queue_call_ok t evs pc = False"

definition queued_told :: "state \<Rightarrow> bool" where
  "queued_told s =
     (onProgress s
      \<and> (\<forall>i. \<not> i < length (calls s) \<longrightarrow> events_of (Caller i) s = [])
      \<and> (\<forall>i t outputDir title artist pc.
            i < length (calls s) \<and> calls s ! i = (QueueDownload t outputDir title artist, pc)
            \<longrightarrow> queue_call_ok t (events_of (Caller i) s) pc))"

text \<open>The worker receives track 7 and announces \<open>downloading\<close> between line 228 and
  line 232 of the call that enqueues it.\<close>

definition sched_race :: "action list" where
  "sched_race =
     [Invoke Start, C 0, C 0,
      Invoke (demo_queue 7), C 1, C 1, C 1,
      W 0, W 0, W 0, W 0, W 0,
      C 1]"

definition st_race :: state where
  "st_race =
     demo_init\<lparr> running := True, wg := 1, next_ctx := 1,
       goroutines := [P_MarkActive (demo_job 7 0)],
       calls := [(Start, Returned RetUnit), (demo_queue 7, Returned (RetErr None))],
       log := [(Worker 0, Event 7 StDownloading None), (Caller 1, Event 7 StQueued None)] \<rparr>"

text \<open>The worker is about to run \<^verbatim>\<open>processJob\<close> on track 7; then the fetch succeeds
  while another call enqueues track 8.\<close>

definition st_precheck :: state where
  "st_precheck =
     demo_init\<lparr> running := True, wg := 1, next_ctx := 1,
       goroutines := [P_PreCheck (demo_job 7 0)],
       calls := [(Start, Returned RetUnit), (demo_queue 7, Returned (RetErr None))],
       log := [(Caller 1, Event 7 StQueued None)] \<rparr>"

definition sched_precheck :: "action list" where
  "sched_precheck =
     [Invoke Start, C 0, C 0,
      Invoke (demo_queue 7), C 1, C 1, C 1, C 1,
      W 0, W 0, W 0]"



text \<open>Track 7 was cancelled while the collaborator, which then succeeds, was at work; the
  worker stands at the post-fetch check. Then the worker finishes while another call
  enqueues track 8.\<close>

definition sched_postcheck :: "action list" where
  "sched_postcheck =
     [Invoke Start, C 0, C 0,
      Invoke (demo_queue 7), C 1, C 1, C 1, C 1,
      W 0, W 0, W 0, W 0, W 0, W 0,
      Invoke (CancelDownload 7), C 2,
      Fetch 0 (Some demo_ok) None]"

definition st_postcheck :: state where
  "st_postcheck =
     demo_init\<lparr> running := True, wg := 1, next_ctx := 1, ctx_cancelled := {0},
       activeJobs := [(7, demo_job 7 0)],
       goroutines := [P_PostCheck (demo_job 7 0) (Some demo_ok) None],
       calls := [(Start, Returned RetUnit), (demo_queue 7, Returned (RetErr None)),
                 (CancelDownload 7, Returned (RetErr None))],
       log := [(Caller 1, Event 7 StQueued None), (Worker 0, Event 7 StDownloading None)] \<rparr>"

definition sched_cancelled :: "action list" where
  "sched_cancelled = [W 0, Invoke (demo_queue 8), W 0, C 3, W 0, W 0]"

definition st_cancelled :: state where
  "st_cancelled =
     demo_init\<lparr> running := True, wg := 1, next_ctx := 1, ctx_cancelled := {0},
       results := [Some demo_ok],
       goroutines := [W_Range],
       calls := [(Start, Returned RetUnit), (demo_queue 7, Returned (RetErr None)),
                 (CancelDownload 7, Returned (RetErr None)),
                 (demo_queue 8, QD (Q_Make 8 ''out'' ''t'' ''a''))],
       log := [(Caller 1, Event 7 StQueued None), (Worker 0, Event 7 StDownloading None),
               (Worker 0, Event 7 StCancelled None)] \<rparr>"

text \<open>Track 7 failed and was enqueued again; the second call has returned and no worker
  has taken the new job yet.\<close>

definition sched_requeue :: "action list" where
  "sched_requeue =
     [Invoke Start, C 0, C 0,
      Invoke (demo_queue 7), C 1, C 1, C 1, C 1,
      W 0, W 0, W 0, W 0, W 0, W 0,
      Fetch 0 (Some demo_fail) (Some (FetchError ''network timeout'')),
      W 0, W 0, W 0, W 0, W 0,
      Invoke (demo_queue 7), C 2, C 2, C 2, C 2]"

definition st_requeued :: state where
  "st_requeued =
     (SetProgressCallback (NewDownloadManager 2))
      \<lparr> running := True, wg := 2, next_ctx := 2,
        queue := [demo_job 7 1],
        results := [Some demo_fail],
        failedJobs := [(7, demo_job 7 0)],
        goroutines := [W_Range, W_Range],
        calls := [(Start, Returned RetUnit), (demo_queue 7, Returned (RetErr None)),
                  (demo_queue 7, Returned (RetErr None))],
        log := [(Caller 1, Event 7 StQueued None), (Worker 0, Event 7 StDownloading None),
                (Worker 0, Event 7 StError (Some demo_fail)),
                (Caller 2, Event 7 StQueued None)] \<rparr>"

text \<open>Track 7 is enqueued a third time; worker 0 takes the second job and worker 1 the
  third; the third fails and is recorded, and then the second completes.\<close>

definition sched_twice :: "action list" where
  "sched_twice =
     [Invoke (demo_queue 7), C 3, C 3, C 3, C 3,
      W 0, W 0, W 0, W 0, W 0, W 0,
      W 1, W 1, W 1, W 1, W 1, W 1,
      Fetch 1 (Some demo_fail) (Some (FetchError ''network timeout'')),
      W 1, W 1, W 1,
      Fetch 0 (Some demo_ok) None,
      W 0, W 0, W 0]"

definition st_twice :: state where
  "st_twice =
     (SetProgressCallback (NewDownloadManager 2))
      \<lparr> running := True, wg := 2, next_ctx := 3,
        results := [Some demo_fail],
        failedJobs := [(7, demo_job 7 2)],
        goroutines := [P_SendResult (demo_job 7 1) (Some demo_ok) None False,
                       P_NotifyError (demo_job 7 2) (Some demo_fail)
                         (Some (FetchError ''network timeout'')) False],
        calls := [(Start, Returned RetUnit), (demo_queue 7, Returned (RetErr None)),
                  (demo_queue 7, Returned (RetErr None)), (demo_queue 7, Returned (RetErr None))],
        log := [(Caller 1, Event 7 StQueued None), (Worker 0, Event 7 StDownloading None),
                (Worker 0, Event 7 StError (Some demo_fail)),
                (Caller 2, Event 7 StQueued None), (Caller 3, Event 7 StQueued None),
                (Worker 0, Event 7 StDownloading None), (Worker 1, Event 7 StDownloading None),
                (Worker 0, Event 7 StCompleted (Some demo_ok))] \<rparr>"

text \<open>Worker 0 is about to register the re-enqueued job of track 7, whose earlier job
  is in the Failed Registry.\<close>

definition st_retry_mark :: state where
  "st_retry_mark =
     st_requeued\<lparr> queue := [], goroutines := [P_MarkActive (demo_job 7 1), W_Range],
       log := log st_requeued @ [(Worker 0, Event 7 StDownloading None)] \<rparr>"

definition st_retry_done :: state where
  "st_retry_done =
     st_requeued\<lparr> queue := [], failedJobs := [], results := [Some demo_fail, Some demo_ok],
       log := log st_requeued @ [(Worker 0, Event 7 StDownloading None),
                                  (Worker 0, Event 7 StCompleted (Some demo_ok))] \<rparr>"

text \<open>The fresh copies that the loop of \<^verbatim>\<open>RetryAllFailed\<close> sends to the queue for
  the jobs \<open>jobs\<close>, each \<^verbatim>\<open>QueueDownload\<close> allocating the next context, from \<open>c\<close> on.\<close>

fun retry_copies :: "DownloadJob list \<Rightarrow> token \<Rightarrow> DownloadJob list" where
  "retry_copies [] c = []"
| "retry_copies (job # rest) c =
     \<lparr> TrackID = TrackID job, OutputDir = OutputDir job, Title = Title job, Artist = Artist job,
       ctx = Some c, cancelFunc = Some c \<rparr> # retry_copies rest (Suc c)"

text \<open>The counter \<^verbatim>\<open>retried\<close> of a call of \<^verbatim>\<open>RetryAllFailed\<close> past its snapshot (or
  the count it returned), and the number of jobs it has still to try.\<close>

fun retry_count :: "cpc \<Rightarrow> nat option" where
  "retry_count (RA_Call rest retried q) = Some retried"
| "retry_count (Returned (RetInt n)) = Some n"
| "retry_count pc = None"

fun retry_left :: "cpc \<Rightarrow> nat" where
  "retry_left (RA_Call rest retried q) = Suc (length rest)"
| "retry_left pc = 0"

text \<open>Tracks 7 and 8 have failed and \<^verbatim>\<open>RetryAllFailed\<close> is entered.\<close>

definition sched_two_failed :: "action list" where
  "sched_two_failed =
     [Invoke Start, C 0, C 0,
      Invoke (demo_queue 7), C 1, C 1, C 1, C 1,
      Invoke (demo_queue 8), C 2, C 2, C 2, C 2,
      W 0, W 0, W 0, W 0, W 0, W 0,
      Fetch 0 None (Some (FetchError ''network timeout'')),
      W 0, W 0, W 0, W 0, W 0,
      W 0, W 0, W 0, W 0, W 0, W 0,
      Fetch 0 None (Some (FetchError ''network timeout'')),
      W 0, W 0, W 0, W 0, W 0,
      Invoke RetryAllFailed]"

definition st_two_failed :: state where
  "st_two_failed =
     demo_init\<lparr> running := True, wg := 1, next_ctx := 2,
       results := [None, None],
       failedJobs := [(7, demo_job 7 0), (8, demo_job 8 1)],
       goroutines := [W_Range],
       calls := [(Start, Returned RetUnit), (demo_queue 7, Returned (RetErr None)),
                 (demo_queue 8, Returned (RetErr None)), (RetryAllFailed, RA_Snapshot)],
       log := [(Caller 1, Event 7 StQueued None), (Caller 2, Event 8 StQueued None),
               (Worker 0, Event 7 StDownloading None), (Worker 0, Event 7 StError None),
               (Worker 0, Event 8 StDownloading None), (Worker 0, Event 8 StError None)] \<rparr>"

text \<open>Both failed tracks have been enqueued again, track 8 first.\<close>

definition st_retried :: state where
  "st_retried =
     st_two_failed\<lparr> failedJobs := [], next_ctx := 4,
       queue := [demo_job 8 2, demo_job 7 3],
       calls := [(Start, Returned RetUnit), (demo_queue 7, Returned (RetErr None)),
                 (demo_queue 8, Returned (RetErr None)), (RetryAllFailed, Returned (RetInt 2))],
       log := log st_two_failed @ [(Caller 3, Event 8 StQueued None), (Caller 3, Event 7 StQueued None)] \<rparr>"

text \<open>The same call on a manager that is not running.\<close>

definition st_two_failed_stopped :: state where
  "st_two_failed_stopped = st_two_failed\<lparr> running := False \<rparr>"

definition st_dropped :: state where
  "st_dropped =
     st_two_failed_stopped\<lparr> failedJobs := [],
       calls := [(Start, Returned RetUnit), (demo_queue 7, Returned (RetErr None)),
                 (demo_queue 8, Returned (RetErr None)), (RetryAllFailed, Returned (RetInt 0))] \<rparr>"

text \<open>The manager is started, stopped and started again; then \<^verbatim>\<open>QueueDownload\<close> has
  passed its check of \<open>running\<close> and stands at the send.\<close>

definition sched_restart :: "action list" where
  "sched_restart =
     [Invoke Start, C 0, C 0,
      Invoke Stop, C 1, C 1, W 0, C 1,
      Invoke Start, C 2, C 2,
      Invoke (demo_queue 7), C 3, C 3]"

definition st_restarted :: state where
  "st_restarted =
     demo_init\<lparr> running := True, queue_closed := True, wg := 1, next_ctx := 1,
       goroutines := [W_Exited, W_Range],
       calls := [(Start, Returned RetUnit), (Stop, Returned RetUnit), (Start, Returned RetUnit),
                 (demo_queue 7, QD (Q_Send (demo_job 7 0)))] \<rparr>"




text \<open>The manager was started and stopped, its worker has exited, and \<^verbatim>\<open>Stop\<close> is
  called a second time.\<close>

definition sched_stopped :: "action list" where
  "sched_stopped =
     [Invoke Start, C 0, C 0,
      Invoke Stop, C 1, C 1, W 0, C 1,
      Invoke Stop]"

definition st_stopped :: state where
  "st_stopped =
     demo_init\<lparr> queue_closed := True,
       goroutines := [W_Exited],
       calls := [(Start, Returned RetUnit), (Stop, Returned RetUnit), (Stop, Stop_Check)] \<rparr>"

text \<open>
  Ownership of job pointers. \<open>held_only t job s\<close>: no goroutine other than \<open>t\<close> holds
  \<open>job\<close> in a local variable, \<open>job\<close> is not in the queue, and its context was
  allocated. \<open>unfailed job s\<close>: \<open>job\<close> is not a value of \<^verbatim>\<open>failedJobs\<close>.
\<close>

definition held_only :: "tid \<Rightarrow> DownloadJob \<Rightarrow> state \<Rightarrow> bool" where
  "held_only t job s =
     (job \<notin> set (queue s)
      \<and> (\<forall>v < length (goroutines s). Worker v \<noteq> t \<longrightarrow> wpc_job (goroutines s ! v) \<noteq> Some job)
      \<and> (\<forall>k < length (calls s). Caller k \<noteq> t \<longrightarrow> cpc_job (snd (calls s ! k)) \<noteq> Some job)
      \<and> ctx_allocated job s)"

definition unfailed :: "DownloadJob \<Rightarrow> state \<Rightarrow> bool" where
  "unfailed job s = (job \<notin> snd ` set (failedJobs s))"

text \<open>The worker is past the lines 186--188, where a failed job is recorded.\<close>

fun past_record :: "wpc \<Rightarrow> bool" where
  "past_record (P_NotifyError job result err cancelled) = True"
| "past_record (P_SendResult job result err cancelled) = True"
| "past_record pc = False"

text \<open>
  \<open>owned s\<close>: every job pointer is in one place. A job in the queue occurs there once,
  and no goroutine holds it; a job held by a goroutine is held by that one alone; and a
  job is a value of \<^verbatim>\<open>failedJobs\<close> only when no caller holds it, it is not in the
  queue, and the worker that holds it, if any, is past recording it.
\<close>

definition owned :: "state \<Rightarrow> bool" where
  "owned s =
     ((\<forall>w < length (goroutines s). \<forall>job. wpc_job (goroutines s ! w) = Some job \<longrightarrow>
          held_only (Worker w) job s \<and> (\<not> past_record (goroutines s ! w) \<longrightarrow> unfailed job s))
      \<and> (\<forall>i < length (calls s). \<forall>job. cpc_job (snd (calls s ! i)) = Some job \<longrightarrow>
          held_only (Caller i) job s \<and> unfailed job s)
      \<and> distinct (queue s)
      \<and> (\<forall>job \<in> set (queue s). ctx_allocated job s \<and> unfailed job s)
      \<and> (\<forall>job \<in> snd ` set (failedJobs s). ctx_allocated job s))"

text \<open>Track 7 has failed; the manager is stopped and started again, and
  \<^verbatim>\<open>RetryAllFailed\<close> is entered. Then the call takes its snapshot and its first
  \<^verbatim>\<open>QueueDownload\<close> passes the check of \<open>running\<close> and stands at the send.\<close>

definition sched_failed_restart :: "action list" where
  "sched_failed_restart =
     [Invoke Start, C 0, C 0,
      Invoke (demo_queue 7), C 1, C 1, C 1, C 1,
      W 0, W 0, W 0, W 0, W 0, W 0,
      Fetch 0 None (Some (FetchError ''network timeout'')),
      W 0, W 0, W 0, W 0, W 0,
      Invoke Stop, C 2, C 2, W 0, C 2,
      Invoke Start, C 3, C 3,
      Invoke RetryAllFailed]"

definition st_failed_restart :: state where
  "st_failed_restart =
     demo_init\<lparr> running := True, queue_closed := True, wg := 1, next_ctx := 1,
       results := [None],
       failedJobs := [(7, demo_job 7 0)],
       goroutines := [W_Exited, W_Range],
       calls := [(Start, Returned RetUnit), (demo_queue 7, Returned (RetErr None)),
                 (Stop, Returned RetUnit), (Start, Returned RetUnit),
                 (RetryAllFailed, RA_Snapshot)],
       log := [(Caller 1, Event 7 StQueued None), (Worker 0, Event 7 StDownloading None),
               (Worker 0, Event 7 StError None)] \<rparr>"

definition st_retry_lost :: state where
  "st_retry_lost =
     st_failed_restart\<lparr> failedJobs := [], next_ctx := 2,
       calls := [(Start, Returned RetUnit), (demo_queue 7, Returned (RetErr None)),
                 (Stop, Returned RetUnit), (Start, Returned RetUnit),
                 (RetryAllFailed, RA_Call [] 0 (Q_Send (demo_job 7 1)))] \<rparr>"

text \<open>Track 7 has failed and \<^verbatim>\<open>RetryAllFailed\<close> has taken its snapshot; its
  \<^verbatim>\<open>QueueDownload\<close> passes the check of \<open>running\<close> (line 209), then \<^verbatim>\<open>Stop\<close> runs up
  to \<^verbatim>\<open>close(dm.queue)\<close> (line 107), and the call stands at the send (line 228).\<close>

definition sched_stop_mid_retry :: "action list" where
  "sched_stop_mid_retry =
     [Invoke Start, C 0, C 0,
      Invoke (demo_queue 7), C 1, C 1, C 1, C 1,
      W 0, W 0, W 0, W 0, W 0, W 0,
      Fetch 0 None (Some (FetchError ''network timeout'')),
      W 0, W 0, W 0, W 0, W 0,
      Invoke RetryAllFailed, Snap 2 [demo_job 7 0], C 2,
      Invoke Stop, C 3, C 3,
      C 2]"

definition st_stop_mid_retry :: state where
  "st_stop_mid_retry =
     demo_init\<lparr> queue_closed := True, wg := 1, next_ctx := 2,
       results := [None],
       goroutines := [W_Range],
       calls := [(Start, Returned RetUnit), (demo_queue 7, Returned (RetErr None)),
                 (RetryAllFailed, RA_Call [] 0 (Q_Send (demo_job 7 1))),
                 (Stop, Stop_Wait)],
       log := [(Caller 1, Event 7 StQueued None), (Worker 0, Event 7 StDownloading None),
               (Worker 0, Event 7 StError None)] \<rparr>"

text \<open>A worker between the insertion of its job into \<^verbatim>\<open>activeJobs\<close> (line 156) and
  the removal (line 176).\<close>

fun registered_pc :: "wpc \<Rightarrow> bool" where
  "registered_pc (P_Download job) = True"
| "registered_pc (P_PostCheck job result err) = True"
| "registered_pc (P_RemoveActive job result err cancelled) = True"
| "registered_pc pc = False"

text \<open>\<open>active_held s\<close>: every entry of the Active Registry is filed under the id of its
  job, and its job is the local variable of a worker between line 156 and line 176.\<close>

definition active_held :: "state \<Rightarrow> bool" where
  "active_held s =
     (\<forall>p \<in> set (activeJobs s). fst p = TrackID (snd p)
        \<and> (\<exists>v < length (goroutines s). registered_pc (goroutines s ! v)
               \<and> wpc_job (goroutines s ! v) = Some (snd p)))"

text \<open>Two jobs of track 7 on two workers: the first is inside the fetch, and the second
  has been announced as \<open>downloading\<close> and is not registered yet.\<close>

definition sched_same_id :: "action list" where
  "sched_same_id =
     [Invoke Start, C 0, C 0,
      Invoke (demo_queue 7), C 1, C 1, C 1, C 1,
      Invoke (demo_queue 7), C 2, C 2, C 2, C 2,
      W 0, W 0, W 0, W 0, W 0, W 0,
      W 1, W 1, W 1, W 1, W 1]"

definition st_same_id :: state where
  "st_same_id =
     (SetProgressCallback (NewDownloadManager 2))
      \<lparr> running := True, wg := 2, next_ctx := 2,
        activeJobs := [(7, demo_job 7 0)],
        goroutines := [P_Download (demo_job 7 0), P_MarkActive (demo_job 7 1)],
        calls := [(Start, Returned RetUnit), (demo_queue 7, Returned (RetErr None)),
                  (demo_queue 7, Returned (RetErr None))],
        log := [(Caller 1, Event 7 StQueued None), (Caller 2, Event 7 StQueued None),
                (Worker 0, Event 7 StDownloading None), (Worker 1, Event 7 StDownloading None)] \<rparr>"

text \<open>
  \<open>undisturbed w k acts s\<close>: along the schedule \<open>acts\<close> from \<open>s\<close>, no step of a goroutine
  other than worker \<open>w\<close> puts an entry for the id \<open>k\<close> into a Failed Registry that has
  none.
\<close>

fun undisturbed :: "nat \<Rightarrow> int \<Rightarrow> action list \<Rightarrow> state \<Rightarrow> bool" where
  "undisturbed w k [] s = True"
| "undisturbed w k (a # acts) s =
     (case step a s of
        Next s' \<Rightarrow>
          (if actor a \<noteq> Some (Worker w) \<and> map_of (failedJobs s) k = None
           then map_of (failedJobs s') k = None else True)
          \<and> undisturbed w k acts s'
      | Blocked \<Rightarrow> True
      | Panic p \<Rightarrow> True)"

text \<open>The worker has deleted the entry of its id (line 158) and has not recorded a
  failure (line 187) since.\<close>

fun cleared_pc :: "wpc \<Rightarrow> bool" where
  "cleared_pc (P_Download job) = True"
| "cleared_pc (P_PostCheck job result err) = True"
| "cleared_pc (P_RemoveActive job result err cancelled) = True"
| "cleared_pc (P_Handle job result err cancelled) = True"
| "cleared_pc (P_SendResult job result err cancelled)
     = (event_status (handle_event job result err cancelled) \<noteq> StError)"
| "cleared_pc pc = False"

text \<open>Worker 0 executes the re-enqueued job of track 7 while \<^verbatim>\<open>PauseQueue\<close> is called.\<close>

definition sched_retry_paused :: "action list" where
  "sched_retry_paused =
     [W 0, Invoke PauseQueue, Fetch 0 (Some demo_ok) None, C 3, W 0, W 0, W 0, W 0]"

definition st_retry_paused :: state where
  "st_retry_paused =
     st_retry_done\<lparr> paused := True,
       calls := calls st_retry_done @ [(PauseQueue, Returned (RetBool True))] \<rparr>"









section \<open>Properties\<close>

lemmas demo_defs =
  demo_init_def demo_job_def demo_queue_def demo_ok_def demo_fail_def
  SetProgressCallback_def NewDownloadManager_def

subsection \<open>What a step leaves alone\<close>

lemma notify_frame:
  "goroutines (notify t i st r s) = goroutines s"
  "calls (notify t i st r s) = calls s"
  "onProgress (notify t i st r s) = onProgress s"
  "next_ctx (notify t i st r s) = next_ctx s"
  "queue (notify t i st r s) = queue s"
  "queue_closed (notify t i st r s) = queue_closed s"
  "activeJobs (notify t i st r s) = activeJobs s"
  "failedJobs (notify t i st r s) = failedJobs s"
  "running (notify t i st r s) = running s"
  "paused (notify t i st r s) = paused s"
  "ctx_cancelled (notify t i st r s) = ctx_cancelled s"
  "wg (notify t i st r s) = wg s"
  "workers (notify t i st r s) = workers s"
  "results (notify t i st r s) = results s"
  by (simp_all add: notify_def)

lemma notify_log:
  "log (notify t i st r s) = log s @ (if onProgress s then [(t, Event i st r)] else [])"
  by (simp add: notify_def)

lemma worker_step_frame:
  assumes "worker_step w pc s = Next (pc', s')"
  shows "goroutines s' = goroutines s" "calls s' = calls s" "onProgress s' = onProgress s"
    "next_ctx s' = next_ctx s" "workers s' = workers s" "ctx_cancelled s' = ctx_cancelled s"
    "\<exists>d. log s' = log s @ d \<and> (\<forall>x\<in>set d. fst x = Worker w)"
  using assms
  by (auto simp: worker_step_def worker_exit_def track_failed_def notify_frame notify_log
      split: wpc.splits list.splits if_splits option.splits)

lemma fetch_step_frame:
  assumes "fetch_step r e pc s = Next (pc', s')"
  shows "s' = s"
  using assms by (auto simp: fetch_step_def split: wpc.splits)

lemma q_step_frame:
  assumes "q_step i q s = Next (q', s')"
  shows "goroutines s' = goroutines s" "calls s' = calls s" "onProgress s' = onProgress s"
    "workers s' = workers s" "failedJobs s' = failedJobs s" "activeJobs s' = activeJobs s"
    "ctx_cancelled s' = ctx_cancelled s"
    "\<exists>d. log s' = log s @ d \<and> (\<forall>x\<in>set d. fst x = Caller i)"
  using assms
  by (auto simp: q_step_def notify_frame notify_log split: qpc.splits if_splits)

lemma caller_step_frame:
  assumes "caller_step i pc s = Next (pc', s')"
  shows "calls s' = calls s" "onProgress s' = onProgress s"
    "workers s' = workers s" "ctx_cancelled s \<subseteq> ctx_cancelled s'"
    "\<exists>d. log s' = log s @ d \<and> (\<forall>x\<in>set d. fst x = Caller i)"
    "\<exists>n. goroutines s' = goroutines s @ replicate n W_Range"
  using assms
  by (auto simp: caller_step_def cancelDownload_def clearFailed_def pauseQueue_def resumeQueue_def
      dest: q_step_frame
      split: cpc.splits if_splits option.splits outcome.splits qres.splits prod.splits)

lemma snapshot_step_frame:
  assumes "snapshot_step jobs pc s = Next (pc', s')"
  shows "calls s' = calls s" "onProgress s' = onProgress s" "log s' = log s"
    "goroutines s' = goroutines s" "ctx_cancelled s' = ctx_cancelled s"
  using assms
  by (auto simp: snapshot_step_def split: cpc.splits if_splits)

lemma step_log:
  assumes "step a s = Next s'"
  shows "\<exists>d. log s' = log s @ d \<and> (\<forall>x\<in>set d. Some (fst x) = actor a)"
  using assms
  by (cases a)
    (auto simp: set_caller_def set_worker_def
      dest: caller_step_frame snapshot_step_frame worker_step_frame fetch_step_frame
      split: if_splits outcome.splits prod.splits)

lemma step_onProgress:
  assumes "step a s = Next s'"
  shows "onProgress s' = onProgress s"
  using assms
  by (cases a)
    (auto simp: set_caller_def set_worker_def
      dest: caller_step_frame snapshot_step_frame worker_step_frame fetch_step_frame
      split: if_splits outcome.splits prod.splits)

lemma step_ctx_cancelled:
  assumes "step a s = Next s'"
  shows "ctx_cancelled s \<subseteq> ctx_cancelled s'"
  using assms
  by (cases a)
    (auto simp: set_caller_def set_worker_def
      dest: subsetD [OF caller_step_frame(4)] snapshot_step_frame worker_step_frame fetch_step_frame
      split: if_splits outcome.splits prod.splits)

subsection \<open>The scenarios are reachable\<close>

lemma st_downloading_reachable: "run sched_downloading demo_init = Next st_downloading"
  by code_simp

lemma st_paused_reachable: "run sched_paused demo_init = Next st_paused"
  by code_simp

subsection \<open>Invariants of schedules\<close>

lemma run_invariant:
  assumes "run acts s = Next s'" and "P s"
    and "\<And>a s s'. P s \<Longrightarrow> step a s = Next s' \<Longrightarrow> P s'"
  shows "P s'"
  using assms(1,2)
proof (induction acts arbitrary: s)
  case Nil
  then show ?case by simp
next
  case (Cons a acts)
  then obtain s1 where "step a s = Next s1" "run acts s1 = Next s'"
    by (auto split: outcome.splits)
  with Cons assms(3) show ?case by blast
qed

lemma step_events_other:
  assumes "step a s = Next s'" and "actor a \<noteq> Some t"
  shows "events_of t s' = events_of t s"
proof -
  from step_log [OF assms(1)] obtain d
    where d: "log s' = log s @ d" "\<forall>x\<in>set d. Some (fst x) = actor a" by blast
  with assms(2) have "filter (\<lambda>p. fst p = t) d = []"
    by (auto simp: filter_empty_conv)
  with d show ?thesis by (simp add: events_of_def)
qed

lemma step_worker_other:
  assumes "step a s = Next s'" and "actor a \<noteq> Some (Worker w)" and "w < length (goroutines s)"
  shows "w < length (goroutines s') \<and> goroutines s' ! w = goroutines s ! w"
  using assms
  by (cases a)
    (auto simp: set_caller_def set_worker_def nth_append
      dest: caller_step_frame snapshot_step_frame worker_step_frame fetch_step_frame
      split: if_splits outcome.splits prod.splits)

lemma step_worker_new:
  assumes "step a s = Next s'" and "w < length (goroutines s')" and "\<not> w < length (goroutines s)"
  shows "goroutines s' ! w = W_Range"
  using assms
  by (cases a)
    (auto simp: set_caller_def set_worker_def nth_append
      dest: caller_step_frame snapshot_step_frame worker_step_frame fetch_step_frame
      split: if_splits outcome.splits prod.splits)

lemma step_worker_own:
  assumes "step a s = Next s'" and "actor a = Some (Worker w)"
  shows "w < length (goroutines s) \<and>
    (\<exists>pc' s1. ((a = W w \<and> worker_step w (goroutines s ! w) s = Next (pc', s1))
               \<or> (\<exists>r e. a = Fetch w r e \<and> fetch_step r e (goroutines s ! w) s = Next (pc', s1)))
              \<and> s' = s1\<lparr>goroutines := (goroutines s)[w := pc']\<rparr>
              \<and> goroutines s' ! w = pc' \<and> length (goroutines s') = length (goroutines s))"
  using assms
  by (cases a)
    (auto simp: set_caller_def set_worker_def
      dest: worker_step_frame fetch_step_frame
      split: if_splits outcome.splits prod.splits)

lemma fetch_step_result:
  assumes "fetch_step r e pc s = Next (pc', s')"
  shows "\<exists>job. pc = P_Download job \<and> pc' = P_PostCheck job r e"
  using assms by (cases pc) (auto simp: fetch_step_def)

lemma worker_step_to_mark:
  assumes "worker_step w pc s = Next (P_MarkActive job, s')"
  shows "pc = P_NotifyStart job \<and> s' = notify (Worker w) (TrackID job) StDownloading None s"
  using assms
  by (auto simp: worker_step_def worker_exit_def split: wpc.splits list.splits if_splits option.splits)



lemma told_downloading_step:
  assumes inv: "told_downloading s" and st: "step a s = Next s'"
  shows "told_downloading s'"
proof -
  have cb: "onProgress s" using inv by (simp add: told_downloading_def)
  have "\<exists>pre. events_of (Worker w) s' = pre @ [Event (TrackID job) StDownloading None]"
    if w: "w < length (goroutines s')" and pc: "goroutines s' ! w = P_MarkActive job" for w job
  proof (cases "actor a = Some (Worker w)")
    case True
    from step_worker_own [OF st True] obtain pc' s1 where
      own: "(a = W w \<and> worker_step w (goroutines s ! w) s = Next (pc', s1))
            \<or> (\<exists>r e. a = Fetch w r e \<and> fetch_step r e (goroutines s ! w) s = Next (pc', s1))"
      and s': "s' = s1\<lparr>goroutines := (goroutines s)[w := pc']\<rparr>" "goroutines s' ! w = pc'"
      by blast
    from pc s' have "pc' = P_MarkActive job" by simp
    with own have "worker_step w (goroutines s ! w) s = Next (P_MarkActive job, s1)"
      by (auto dest: fetch_step_result)
    from worker_step_to_mark [OF this] have "s1 = notify (Worker w) (TrackID job) StDownloading None s"
      by simp
    with s' cb show ?thesis
      by (simp add: events_of_def notify_log)
  next
    case False
    show ?thesis
    proof (cases "w < length (goroutines s)")
      case True
      with step_worker_other [OF st False] pc have "goroutines s ! w = P_MarkActive job" by simp
      with inv True obtain pre where "events_of (Worker w) s = pre @ [Event (TrackID job) StDownloading None]"
        by (auto simp: told_downloading_def)
      with step_events_other [OF st False] show ?thesis by simp
    next
      case False
      from step_worker_new [OF st w False] pc show ?thesis by simp
    qed
  qed
  with cb step_onProgress [OF st] show ?thesis
    by (simp add: told_downloading_def)
qed

lemma told_downloading_init: "told_downloading (SetProgressCallback (NewDownloadManager n))"
  by (simp add: told_downloading_def SetProgressCallback_def NewDownloadManager_def)

lemma length_update_new: "map_of al k = None \<Longrightarrow> length (AList.update k v al) = Suc (length al)"
  by (induction al) auto

lemma step_caller_other:
  assumes "step a s = Next s'" and "actor a \<noteq> Some (Caller i)" and "i < length (calls s)"
  shows "i < length (calls s') \<and> calls s' ! i = calls s ! i"
  using assms
  by (cases a)
    (auto simp: set_caller_def set_worker_def nth_append
      dest: caller_step_frame snapshot_step_frame worker_step_frame fetch_step_frame
      split: if_splits outcome.splits prod.splits)

lemma step_caller_new:
  assumes "step a s = Next s'" and "i < length (calls s')" and "\<not> i < length (calls s)"
  shows "\<exists>c. a = Invoke c \<and> calls s' ! i = (c, entry c) \<and> log s' = log s"
  using assms
  by (cases a)
    (auto simp: set_caller_def set_worker_def nth_append less_Suc_eq
      dest: caller_step_frame snapshot_step_frame worker_step_frame fetch_step_frame
      split: if_splits outcome.splits prod.splits)

lemma step_calls_length:
  assumes "step a s = Next s'"
  shows "length (calls s) \<le> length (calls s')"
  using assms
  by (cases a)
    (auto simp: set_caller_def set_worker_def
      dest: caller_step_frame snapshot_step_frame worker_step_frame fetch_step_frame
      split: if_splits outcome.splits prod.splits)

lemma step_caller_own:
  assumes "step a s = Next s'" and "actor a = Some (Caller i)"
  shows "i < length (calls s) \<and>
    (\<exists>pc' s1. ((a = C i \<and> caller_step i (snd (calls s ! i)) s = Next (pc', s1))
               \<or> (\<exists>jobs. a = Snap i jobs \<and> snapshot_step jobs (snd (calls s ! i)) s = Next (pc', s1)))
              \<and> s' = s1\<lparr>calls := (calls s)[i := (fst (calls s ! i), pc')]\<rparr>
              \<and> calls s' ! i = (fst (calls s ! i), pc') \<and> length (calls s') = length (calls s)
              \<and> log s' = log s1)"
  using assms
  by (cases a)
    (auto simp: set_caller_def set_worker_def
      dest: caller_step_frame snapshot_step_frame
      split: if_splits outcome.splits prod.splits)

lemma caller_step_QD:
  assumes "caller_step i (QD q) s = Next (pc', s')" and "onProgress s"
  shows "(\<exists>q'. pc' = QD q' \<and> qpc_track q' = qpc_track q \<and> log s' = log s)
       \<or> (\<exists>e. pc' = Returned (RetErr (Some e)) \<and> log s' = log s)
       \<or> (pc' = Returned (RetErr None)
           \<and> log s' = log s @ [(Caller i, Event (qpc_track q) StQueued None)])"
  using assms
  by (cases q)
    (auto simp: caller_step_def q_step_def notify_log split: if_splits)

lemma snapshot_step_pc:
  assumes "snapshot_step jobs pc s = Next (pc', s')"
  shows "pc = RA_Snapshot"
  using assms by (cases pc) (auto simp: snapshot_step_def)

lemma queued_told_init: "queued_told (SetProgressCallback (NewDownloadManager n))"
  by (simp add: queued_told_def events_of_def SetProgressCallback_def NewDownloadManager_def)

lemma queued_told_step:
  assumes inv: "queued_told s" and st: "step a s = Next s'"
  shows "queued_told s'"
proof -
  have cb: "onProgress s" using inv by (simp add: queued_told_def)
  have fresh: "events_of (Caller i) s' = []" if "\<not> i < length (calls s')" for i
  proof -
    from that step_calls_length [OF st] have out: "\<not> i < length (calls s)" by simp
    with st have "actor a \<noteq> Some (Caller i)"
      by (auto dest: step_caller_own)
    from step_events_other [OF st this] out inv show ?thesis
      by (simp add: queued_told_def)
  qed
  have "queue_call_ok t (events_of (Caller i) s') pc"
    if i: "i < length (calls s')" and c: "calls s' ! i = (QueueDownload t outputDir title artist, pc)"
    for i t outputDir title artist pc
  proof (cases "i < length (calls s)")
    case False
    from step_caller_new [OF st i False] c
    have "pc = QD (Q_Check t outputDir title artist)" and "log s' = log s"
      by auto
    moreover from False inv have "events_of (Caller i) s = []"
      by (simp add: queued_told_def)
    ultimately show ?thesis
      by (simp add: events_of_def)
  next
    case old: True
    show ?thesis
    proof (cases "actor a = Some (Caller i)")
      case False
      from step_caller_other [OF st False old] c
      have "calls s ! i = (QueueDownload t outputDir title artist, pc)" by simp
      with inv old have "queue_call_ok t (events_of (Caller i) s) pc"
        unfolding queued_told_def by blast
      with step_events_other [OF st False] show ?thesis by simp
    next
      case True
      from step_caller_own [OF st True] obtain pc' s1 where
        own: "(a = C i \<and> caller_step i (snd (calls s ! i)) s = Next (pc', s1))
              \<or> (\<exists>jobs. a = Snap i jobs \<and> snapshot_step jobs (snd (calls s ! i)) s = Next (pc', s1))"
        and s': "calls s' ! i = (fst (calls s ! i), pc')" "log s' = log s1"
        by blast
      from s' c have call: "fst (calls s ! i) = QueueDownload t outputDir title artist" and pc: "pc' = pc"
        by simp_all
      then have "calls s ! i = (QueueDownload t outputDir title artist, snd (calls s ! i))"
        by (metis prod.collapse)
      with inv old have ok: "queue_call_ok t (events_of (Caller i) s) (snd (calls s ! i))"
        unfolding queued_told_def by blast
      then obtain q where q: "snd (calls s ! i) = QD q" "qpc_track q = t" "events_of (Caller i) s = []"
        using own
        by (cases "(t, events_of (Caller i) s, snd (calls s ! i))" rule: queue_call_ok.cases)
          (auto simp: caller_step_def snapshot_step_def)
      with own have "caller_step i (QD q) s = Next (pc', s1)"
        by (auto dest: snapshot_step_pc)
      from caller_step_QD [OF this cb] q s' pc show ?thesis
        by (auto simp: events_of_def)
    qed
  qed
  with fresh cb step_onProgress [OF st] show ?thesis
    unfolding queued_told_def by blast
qed

subsection \<open>\<open>queued\<close> and \<open>downloading\<close>\<close>

text \<open>
  C1, as amended. With a callback installed, every call of \<^verbatim>\<open>QueueDownload\<close> that
  returned \<^verbatim>\<open>nil\<close> has itself emitted \<open>queued\<close> for its track, exactly once and before
  returning, and has emitted nothing else; a call that is still running or that returned
  an error has emitted nothing. The event is emitted after the job was sent to the queue
  (line 228 before line 232), and nothing orders it against the worker that receives
  the job.
\<close>

theorem queued_before_return:
  assumes "run acts (SetProgressCallback (NewDownloadManager n)) = Next s"
    and "i < length (calls s)"
    and "calls s ! i = (QueueDownload t outputDir title artist, pc)"
  shows "(pc = Returned (RetErr None) \<longrightarrow> events_of (Caller i) s = [Event t StQueued None])
    \<and> (pc \<noteq> Returned (RetErr None) \<longrightarrow> events_of (Caller i) s = [])"
proof -
  have "queued_told s"
    by (rule run_invariant [OF assms(1)]) (auto intro: queued_told_init queued_told_step)
  with assms(2,3) have "queue_call_ok t (events_of (Caller i) s) pc"
    unfolding queued_told_def by blast
  then show ?thesis
    by (cases "(t, events_of (Caller i) s, pc)" rule: queue_call_ok.cases) auto
qed

theorem queued_before_return_witness:
  "run sched_race (SetProgressCallback (NewDownloadManager 1)) = Next st_race
   \<and> calls st_race ! 1 = (QueueDownload 7 ''out'' ''t'' ''a'', Returned (RetErr None))
   \<and> events_of (Caller 1) st_race = [Event 7 StQueued None]"
proof -
  have reach: "run sched_race (SetProgressCallback (NewDownloadManager 1)) = Next st_race"
    by code_simp
  have i: "1 < length (calls st_race)"
    and c: "calls st_race ! 1 = (QueueDownload 7 ''out'' ''t'' ''a'', Returned (RetErr None))"
    by (simp_all add: st_race_def demo_defs)
  from queued_before_return [OF reach i c] reach c show ?thesis
    by simp
qed

text \<open>
  C1 as stated fails: in this schedule of one enqueue and one worker, the listener
  observes \<open>downloading\<close> for track 7 before \<open>queued\<close> for track 7.
\<close>

theorem queued_after_downloading_counterexample:
  "run sched_race (SetProgressCallback (NewDownloadManager 1)) = Next st_race
   \<and> map snd (log st_race) = [Event 7 StDownloading None, Event 7 StQueued None]"
proof -
  have "run sched_race (SetProgressCallback (NewDownloadManager 1)) = Next st_race"
    by code_simp
  then show ?thesis
    by (simp add: st_race_def)
qed

subsection \<open>The nil result\<close>

text \<open>
  C9, as amended. The handling of the fetch result (lines 180--197) panics exactly when
  the post-fetch check did not find the job cancelled and the collaborator returned a
  nil result together with a nil error: with \<^verbatim>\<open>cancelled\<close> false and \<^verbatim>\<open>err\<close> nil
  the code reads \<^verbatim>\<open>result.Success\<close> without a nil check; with \<^verbatim>\<open>err\<close> non-nil, or
  with \<^verbatim>\<open>cancelled\<close> true, the result is not dereferenced. That step never blocks and
  can raise no other panic, and no other step of \<^verbatim>\<open>processJob\<close> panics.
\<close>

theorem handle_panics_iff:
  "(worker_step w (P_Handle job result err cancelled) s = Panic NilDereference
      \<longleftrightarrow> \<not> cancelled \<and> err = None \<and> result = None)
   \<and> (\<forall>p. worker_step w (P_Handle job result err cancelled) s = Panic p \<longrightarrow> p = NilDereference)
   \<and> worker_step w (P_Handle job result err cancelled) s \<noteq> Blocked
   \<and> (\<forall>pc. in_processJob pc \<and> (\<forall>j r e c. pc \<noteq> P_Handle j r e c)
         \<longrightarrow> (\<forall>p. worker_step w pc s \<noteq> Panic p))"
  by (auto simp: worker_step_def split: option.splits wpc.splits)

theorem handle_panics_iff_witness:
  "worker_step 0 (P_Handle (demo_job 7 0) None None False) demo_init = Panic NilDereference
   \<and> worker_step 0 (P_Handle (demo_job 7 0) None (Some (FetchError ''network timeout'')) False) demo_init
       \<noteq> Panic NilDereference
   \<and> worker_step 0 (P_Handle (demo_job 7 0) (Some demo_ok) None False) demo_init
       \<noteq> Panic NilDereference
   \<and> in_processJob (P_NotifyStart (demo_job 7 0))
   \<and> worker_step 0 (P_NotifyStart (demo_job 7 0)) demo_init \<noteq> Panic NilDereference"
proof -
  have "in_processJob (P_NotifyStart (demo_job 7 0))"
    by simp
  moreover from this
    handle_panics_iff [of 0 "demo_job 7 0" None None False demo_init]
  have "worker_step 0 (P_Handle (demo_job 7 0) None None False) demo_init = Panic NilDereference"
    and "worker_step 0 (P_NotifyStart (demo_job 7 0)) demo_init \<noteq> Panic NilDereference"
    by blast+
  moreover from
    handle_panics_iff [of 0 "demo_job 7 0" None "Some (FetchError ''network timeout'')" False demo_init]
  have "worker_step 0 (P_Handle (demo_job 7 0) None (Some (FetchError ''network timeout'')) False) demo_init
       \<noteq> Panic NilDereference"
    by blast
  moreover from
    handle_panics_iff [of 0 "demo_job 7 0" "Some demo_ok" None False demo_init]
  have "worker_step 0 (P_Handle (demo_job 7 0) (Some demo_ok) None False) demo_init
       \<noteq> Panic NilDereference"
    by blast
  ultimately show ?thesis
    by blast
qed

text \<open>
  C9 as stated fails: the collaborator returned a nil result with a nil error, the job
  was found cancelled, and \<^verbatim>\<open>processJob\<close> does not dereference the result; it emits
  \<open>cancelled\<close> and goes on.
\<close>

theorem nil_result_cancelled_counterexample:
  "worker_step 0 (P_Handle (demo_job 7 0) None None True) demo_init
   = Next (P_SendResult (demo_job 7 0) None None True,
           demo_init\<lparr>log := [(Worker 0, Event 7 StCancelled None)]\<rparr>)"
  by (simp add: worker_step_def notify_def demo_defs)

subsection \<open>One execution of \<^verbatim>\<open>processJob\<close> under any interleaving\<close>

lemma emitted_by_same: "log s' = log s \<Longrightarrow> emitted_by t s s' = []"
  by (simp add: emitted_by_def)

lemma emitted_by_append:
  "log s' = log s @ d \<Longrightarrow> emitted_by t s s' = map snd (filter (\<lambda>p. fst p = t) d)"
  by (simp add: emitted_by_def)

lemma emitted_by_trans:
  assumes "log s1 = log s @ d1" and "log s2 = log s1 @ d2"
  shows "emitted_by t s s2 = emitted_by t s s1 @ emitted_by t s1 s2"
  using assms by (simp add: emitted_by_def)

lemma emitted_by_log_eq: "log m = log s2 \<Longrightarrow> emitted_by t s1 m = emitted_by t s1 s2"
  by (simp add: emitted_by_def)

lemma step_emitted_other:
  assumes "step a s = Next s'" and "actor a \<noteq> Some t"
  shows "emitted_by t s s' = []"
proof -
  from step_log [OF assms(1)] obtain d
    where d: "log s' = log s @ d" "\<forall>x\<in>set d. Some (fst x) = actor a" by blast
  with assms(2) have "filter (\<lambda>p. fst p = t) d = []"
    by (auto simp: filter_empty_conv)
  with d show ?thesis by (simp add: emitted_by_def)
qed

lemma until_return_Cons:
  assumes "until_return w (a # as) s = Some s'"
  shows "\<exists>s1. step a s = Next s1 \<and>
    (if w < length (goroutines s1) \<and> in_processJob (goroutines s1 ! w)
     then until_return w as s1 = Some s' else as = [] \<and> s1 = s')"
  using assms by (auto split: outcome.splits if_splits)

lemma until_return_log:
  assumes "until_return w acts s = Some s'"
  shows "\<exists>d. log s' = log s @ d"
  using assms
proof (induction acts arbitrary: s)
  case Nil
  then show ?case by simp
next
  case (Cons a as)
  from until_return_Cons [OF Cons.prems] obtain s1 where
    st: "step a s = Next s1"
    and rest: "if w < length (goroutines s1) \<and> in_processJob (goroutines s1 ! w)
     then until_return w as s1 = Some s' else as = [] \<and> s1 = s'"
    by blast
  from step_log [OF st] obtain d where d: "log s1 = log s @ d" by blast
  show ?case
  proof (cases "w < length (goroutines s1) \<and> in_processJob (goroutines s1 ! w)")
    case True
    with rest Cons.IH obtain d' where "log s' = log s1 @ d'" by auto
    with d show ?thesis by simp
  next
    case False
    with rest d show ?thesis by auto
  qed
qed

text \<open>Up to the next step of worker \<open>w\<close> itself, the other goroutines move: they leave
  the worker where it is and keep whatever \<open>P\<close> they cannot break.\<close>

lemma until_return_own:
  assumes "until_return w acts s = Some s'"
    and "w < length (goroutines s)" and "in_processJob (goroutines s ! w)"
    and "P s"
    and stable: "\<forall>a s s'. P s \<and> step a s = Next s' \<and> actor a \<noteq> Some (Worker w) \<longrightarrow> P s'"
  shows "\<exists>s1 a s2 rest. P s1 \<and> w < length (goroutines s1) \<and> goroutines s1 ! w = goroutines s ! w
           \<and> actor a = Some (Worker w) \<and> step a s1 = Next s2
           \<and> emitted_by (Worker w) s s' = emitted_by (Worker w) s1 s2 @ emitted_by (Worker w) s2 s'
           \<and> (if w < length (goroutines s2) \<and> in_processJob (goroutines s2 ! w)
               then until_return w rest s2 = Some s' else s2 = s')"
  using assms(1-4)
proof (induction acts arbitrary: s)
  case Nil
  then show ?case by simp
next
  case (Cons a as)
  from until_return_Cons [OF Cons.prems(1)] obtain sa where
    st: "step a s = Next sa"
    and rest: "if w < length (goroutines sa) \<and> in_processJob (goroutines sa ! w)
     then until_return w as sa = Some s' else as = [] \<and> sa = s'"
    by blast
  from step_log [OF st] obtain d where d: "log sa = log s @ d" by blast
  have "\<exists>d'. log s' = log sa @ d'"
    using rest until_return_log by (auto split: if_splits)
  then obtain d' where d': "log s' = log sa @ d'" by blast
  note split = emitted_by_trans [OF d d', of "Worker w"]
  show ?case
  proof (cases "actor a = Some (Worker w)")
    case True
    with Cons.prems st rest split show ?thesis
      by (intro exI [of _ s] exI [of _ a] exI [of _ sa] exI [of _ as]) (auto split: if_splits)
  next
    case False
    from step_worker_other [OF st False Cons.prems(2)]
    have same: "w < length (goroutines sa)" "goroutines sa ! w = goroutines s ! w" by simp_all
    with Cons.prems(3) rest have ur: "until_return w as sa = Some s'" by simp
    from stable Cons.prems(4) st False have "P sa" by blast
    from Cons.IH [OF ur same(1) _ this] same(2) Cons.prems(3)
    obtain s1 a' s2 rest' where
      "P s1" "w < length (goroutines s1)" "goroutines s1 ! w = goroutines sa ! w"
      "actor a' = Some (Worker w)" "step a' s1 = Next s2"
      "emitted_by (Worker w) sa s' = emitted_by (Worker w) s1 s2 @ emitted_by (Worker w) s2 s'"
      "if w < length (goroutines s2) \<and> in_processJob (goroutines s2 ! w)
               then until_return w rest' s2 = Some s' else s2 = s'"
      by auto
    with same split step_emitted_other [OF st False] show ?thesis
      by (intro exI [of _ s1] exI [of _ a'] exI [of _ s2] exI [of _ rest']) simp
  qed
qed

lemma step_worker_own_W:
  assumes "step a s = Next s'" and "actor a = Some (Worker w)"
    and "\<And>job. goroutines s ! w \<noteq> P_Download job"
  shows "\<exists>pc' m. worker_step w (goroutines s ! w) s = Next (pc', m)
           \<and> s' = m\<lparr>goroutines := (goroutines s)[w := pc']\<rparr> \<and> w < length (goroutines s)"
  using assms
  by (cases a)
    (auto simp: set_worker_def fetch_step_def
      dest: worker_step_frame
      split: if_splits outcome.splits prod.splits wpc.splits)

lemma step_worker_own_Fetch:
  assumes "step a s = Next s'" and "actor a = Some (Worker w)"
    and "goroutines s ! w = P_Download job"
  shows "\<exists>result err. s' = s\<lparr>goroutines := (goroutines s)[w := P_PostCheck job result err]\<rparr>
           \<and> w < length (goroutines s)"
  using assms
  by (cases a)
    (auto simp: set_worker_def fetch_step_def worker_step_def
      split: if_splits outcome.splits prod.splits)

text \<open>The same, with the step of the worker spelled out.\<close>

lemma until_return_worker_step:
  assumes "until_return w acts s = Some s'"
    and "w < length (goroutines s)" and "goroutines s ! w = pc" and "in_processJob pc"
    and "\<And>job. pc \<noteq> P_Download job"
    and "P s"
    and stable: "\<forall>a s s'. P s \<and> step a s = Next s' \<and> actor a \<noteq> Some (Worker w) \<longrightarrow> P s'"
  shows "\<exists>s1 pc' m s2 rest. P s1 \<and> w < length (goroutines s1) \<and> goroutines s1 ! w = pc
           \<and> worker_step w pc s1 = Next (pc', m)
           \<and> s2 = m\<lparr>goroutines := (goroutines s1)[w := pc']\<rparr>
           \<and> emitted_by (Worker w) s s' = emitted_by (Worker w) s1 m @ emitted_by (Worker w) s2 s'
           \<and> (if in_processJob pc' then until_return w rest s2 = Some s' else s2 = s')"
proof -
  from until_return_own [where P = P, OF assms(1,2) _ assms(6) stable] assms(3,4)
  obtain s1 a s2 rest where
    s1: "P s1" "w < length (goroutines s1)" "goroutines s1 ! w = pc"
    and a: "actor a = Some (Worker w)" "step a s1 = Next s2"
    and em: "emitted_by (Worker w) s s' = emitted_by (Worker w) s1 s2 @ emitted_by (Worker w) s2 s'"
    and rest: "if w < length (goroutines s2) \<and> in_processJob (goroutines s2 ! w)
               then until_return w rest s2 = Some s' else s2 = s'"
    by auto
  from assms(5) s1(3) have "\<And>job. goroutines s1 ! w \<noteq> P_Download job" by simp
  from step_worker_own_W [OF a(2,1) this] s1(3) obtain pc' m where
    m: "worker_step w pc s1 = Next (pc', m)"
    and s2: "s2 = m\<lparr>goroutines := (goroutines s1)[w := pc']\<rparr>"
    by auto
  from s2 have "emitted_by (Worker w) s1 s2 = emitted_by (Worker w) s1 m"
    by (simp add: emitted_by_def)
  with s1 m s2 em rest show ?thesis
    by (intro exI [of _ s1] exI [of _ pc'] exI [of _ m] exI [of _ s2] exI [of _ rest]) simp
qed

lemma until_return_fetch_step:
  assumes "until_return w acts s = Some s'"
    and "w < length (goroutines s)" and "goroutines s ! w = P_Download job"
    and "P s"
    and stable: "\<forall>a s s'. P s \<and> step a s = Next s' \<and> actor a \<noteq> Some (Worker w) \<longrightarrow> P s'"
  shows "\<exists>s1 result err s2 rest. P s1 \<and> w < length (goroutines s1)
           \<and> s2 = s1\<lparr>goroutines := (goroutines s1)[w := P_PostCheck job result err]\<rparr>
           \<and> emitted_by (Worker w) s s' = emitted_by (Worker w) s2 s'
           \<and> until_return w rest s2 = Some s'"
proof -
  from until_return_own [where P = P, OF assms(1,2) _ assms(4) stable] assms(3)
  obtain s1 a s2 rest where
    s1: "P s1" "w < length (goroutines s1)" "goroutines s1 ! w = P_Download job"
    and a: "actor a = Some (Worker w)" "step a s1 = Next s2"
    and em: "emitted_by (Worker w) s s' = emitted_by (Worker w) s1 s2 @ emitted_by (Worker w) s2 s'"
    and rest: "if w < length (goroutines s2) \<and> in_processJob (goroutines s2 ! w)
               then until_return w rest s2 = Some s' else s2 = s'"
    by auto
  from step_worker_own_Fetch [OF a(2,1) s1(3)] obtain result err where
    s2: "s2 = s1\<lparr>goroutines := (goroutines s1)[w := P_PostCheck job result err]\<rparr>"
    by auto
  then have "emitted_by (Worker w) s1 s2 = []"
    by (simp add: emitted_by_def)
  with s1 s2 em rest show ?thesis
    by (intro exI [of _ s1] exI [of _ result] exI [of _ err] exI [of _ s2] exI [of _ rest]) simp
qed

lemma onProgress_stable:
  "\<forall>a s s'. onProgress s \<and> step a s = Next s' \<and> actor a \<noteq> Some (Worker w) \<longrightarrow> onProgress s'"
  using step_onProgress by blast

lemma ctx_done_mono: "ctx_cancelled s \<subseteq> ctx_cancelled s' \<Longrightarrow> ctx_done job s \<Longrightarrow> ctx_done job s'"
  by (auto simp: ctx_done_def split: option.splits)

lemma ctx_done_stable:
  "\<forall>a s s'. (onProgress s \<and> (d \<longrightarrow> ctx_done job s)) \<and> step a s = Next s'
      \<and> actor a \<noteq> Some (Worker w) \<longrightarrow> (onProgress s' \<and> (d \<longrightarrow> ctx_done job s'))"
  using step_onProgress step_ctx_cancelled ctx_done_mono by blast

lemma emitted_by_notify:
  "onProgress s \<Longrightarrow> emitted_by t s (notify t i st r s) = [Event i st r]"
  by (simp add: emitted_by_def notify_def)

lemma emitted_by_refl: "emitted_by t s s = []"
  by (simp add: emitted_by_def)

lemma ur_SendResult:
  assumes "until_return w acts s = Some s'" and "w < length (goroutines s)"
    and "goroutines s ! w = P_SendResult job r e c"
  shows "emitted_by (Worker w) s s' = []"
proof -
  from until_return_worker_step [where P = "\<lambda>s. True", OF assms]
  obtain s1 pc' m s2 rest where
    m: "worker_step w (P_SendResult job r e c) s1 = Next (pc', m)"
    and s2: "s2 = m\<lparr>goroutines := (goroutines s1)[w := pc']\<rparr>"
    and em: "emitted_by (Worker w) s s' = emitted_by (Worker w) s1 m @ emitted_by (Worker w) s2 s'"
    and rest: "if in_processJob pc' then until_return w rest s2 = Some s' else s2 = s'"
    by auto
  from m have "pc' = W_Range" and "log m = log s1"
    by (auto simp: worker_step_def split: if_splits)
  with em rest show ?thesis
    by (simp add: emitted_by_same emitted_by_refl)
qed

lemma ur_NotifyError:
  assumes "until_return w acts s = Some s'" and "w < length (goroutines s)"
    and "goroutines s ! w = P_NotifyError job r e c" and "onProgress s"
  shows "emitted_by (Worker w) s s' = [Event (TrackID job) StError r]"
proof -
  from until_return_worker_step [where P = onProgress, OF assms(1-3) _ _ assms(4) onProgress_stable]
  obtain s1 pc' m s2 rest where
    s1: "onProgress s1" "w < length (goroutines s1)"
    and m: "worker_step w (P_NotifyError job r e c) s1 = Next (pc', m)"
    and s2: "s2 = m\<lparr>goroutines := (goroutines s1)[w := pc']\<rparr>"
    and em: "emitted_by (Worker w) s s' = emitted_by (Worker w) s1 m @ emitted_by (Worker w) s2 s'"
    and rest: "if in_processJob pc' then until_return w rest s2 = Some s' else s2 = s'"
    by auto
  from m have pc': "pc' = P_SendResult job r e c"
    and m': "m = notify (Worker w) (TrackID job) StError r s1"
    by (auto simp: worker_step_def)
  from pc' rest s2 s1 have "emitted_by (Worker w) s2 s' = []"
    by (intro ur_SendResult [of w rest s2 s' job r e c]) simp_all
  with em m' s1 show ?thesis
    by (simp add: emitted_by_notify)
qed

lemma ur_Handle:
  assumes "until_return w acts s = Some s'" and "w < length (goroutines s)"
    and "goroutines s ! w = P_Handle job r e c" and "onProgress s"
  shows "emitted_by (Worker w) s s' = [handle_event job r e c]"
proof -
  from until_return_worker_step [where P = onProgress, OF assms(1-3) _ _ assms(4) onProgress_stable]
  obtain s1 pc' m s2 rest where
    s1: "onProgress s1" "w < length (goroutines s1)"
    and m: "worker_step w (P_Handle job r e c) s1 = Next (pc', m)"
    and s2: "s2 = m\<lparr>goroutines := (goroutines s1)[w := pc']\<rparr>"
    and em: "emitted_by (Worker w) s s' = emitted_by (Worker w) s1 m @ emitted_by (Worker w) s2 s'"
    and rest: "if in_processJob pc' then until_return w rest s2 = Some s' else s2 = s'"
    by auto
  from m consider
    (failed) "pc' = P_NotifyError job r e c" "m = track_failed job s1"
      "handle_event job r e c = Event (TrackID job) StError r"
    | (told) "pc' = P_SendResult job r e c"
      "m = notify (Worker w) (TrackID job) (event_status (handle_event job r e c))
             (if c then None else r) s1"
      "handle_event job r e c
       = Event (TrackID job) (event_status (handle_event job r e c)) (if c then None else r)"
    by (auto simp: worker_step_def handle_event_def split: if_splits option.splits)
  then show ?thesis
  proof cases
    case failed
    from failed(1) rest s2 s1 have "emitted_by (Worker w) s2 s' = [Event (TrackID job) StError r]"
      by (intro ur_NotifyError [of w rest s2 s' job r e c])
        (simp_all add: worker_step_frame(3) [OF m])
    moreover from failed(2) have "emitted_by (Worker w) s1 m = []"
      by (simp add: emitted_by_def track_failed_def)
    ultimately show ?thesis
      using em failed(3) by simp
  next
    case told
    from told(1) rest s2 s1 have "emitted_by (Worker w) s2 s' = []"
      by (intro ur_SendResult [of w rest s2 s' job r e c]) simp_all
    moreover from told(2,3) s1 have "emitted_by (Worker w) s1 m = [handle_event job r e c]"
      by (simp add: emitted_by_notify)
    ultimately show ?thesis
      using em by simp
  qed
qed

lemma ur_RemoveActive:
  assumes "until_return w acts s = Some s'" and "w < length (goroutines s)"
    and "goroutines s ! w = P_RemoveActive job r e c" and "onProgress s"
  shows "emitted_by (Worker w) s s' = [handle_event job r e c]"
proof -
  from until_return_worker_step [where P = onProgress, OF assms(1-3) _ _ assms(4) onProgress_stable]
  obtain s1 pc' m s2 rest where
    s1: "onProgress s1" "w < length (goroutines s1)"
    and m: "worker_step w (P_RemoveActive job r e c) s1 = Next (pc', m)"
    and s2: "s2 = m\<lparr>goroutines := (goroutines s1)[w := pc']\<rparr>"
    and em: "emitted_by (Worker w) s s' = emitted_by (Worker w) s1 m @ emitted_by (Worker w) s2 s'"
    and rest: "if in_processJob pc' then until_return w rest s2 = Some s' else s2 = s'"
    by auto
  from m have pc': "pc' = P_Handle job r e c" and lg: "log m = log s1" and cb: "onProgress m"
    using s1 by (auto simp: worker_step_def)
  from pc' rest s2 s1 cb have "emitted_by (Worker w) s2 s' = [handle_event job r e c]"
    by (intro ur_Handle [of w rest s2 s' job r e c]) simp_all
  with em lg show ?thesis
    by (simp add: emitted_by_same)
qed

lemma ur_PostCheck:
  assumes "until_return w acts s = Some s'" and "w < length (goroutines s)"
    and "goroutines s ! w = P_PostCheck job r e" and "onProgress s"
  shows "\<exists>c. emitted_by (Worker w) s s' = [handle_event job r e c] \<and> (ctx_done job s \<longrightarrow> c)"
proof -
  have "onProgress s \<and> (ctx_done job s \<longrightarrow> ctx_done job s)"
    using assms(4) by simp
  from until_return_worker_step [where P = "\<lambda>x. onProgress x \<and> (ctx_done job s \<longrightarrow> ctx_done job x)",
      OF assms(1-3) _ _ this ctx_done_stable]
  obtain s1 pc' m s2 rest where
    s1: "onProgress s1" "ctx_done job s \<longrightarrow> ctx_done job s1" "w < length (goroutines s1)"
    and m: "worker_step w (P_PostCheck job r e) s1 = Next (pc', m)"
    and s2: "s2 = m\<lparr>goroutines := (goroutines s1)[w := pc']\<rparr>"
    and em: "emitted_by (Worker w) s s' = emitted_by (Worker w) s1 m @ emitted_by (Worker w) s2 s'"
    and rest: "if in_processJob pc' then until_return w rest s2 = Some s' else s2 = s'"
    by auto
  from m have pc': "pc' = P_RemoveActive job r e (ctx_done job s1)" and lg: "m = s1"
    by (auto simp: worker_step_def)
  from pc' rest s2 s1 lg
  have "emitted_by (Worker w) s2 s' = [handle_event job r e (ctx_done job s1)]"
    by (intro ur_RemoveActive [of w rest s2 s' job r e "ctx_done job s1"]) simp_all
  with em lg have "emitted_by (Worker w) s s' = [handle_event job r e (ctx_done job s1)]"
    by (simp add: emitted_by_refl)
  with s1(2) show ?thesis
    by blast
qed






lemma st_precheck_reachable: "run sched_precheck demo_init = Next st_precheck"
  by code_simp

subsection \<open>One terminal event per execution\<close>


subsection \<open>Who can store a job in the Failed Registry\<close>

lemma vals_update: "snd ` set (AList.update k v al) \<subseteq> insert v (snd ` set al)"
  by (induction al) auto

lemma vals_delete: "snd ` set (AList.delete k al) \<subseteq> snd ` set al"
  by (auto simp: AList.delete_eq)

lemma vals_updateD: "(a, j) \<in> set (AList.update k v al) \<Longrightarrow> j = v \<or> j \<in> snd ` set al"
  using vals_update [of k v al] by force

lemma vals_deleteD: "(a, j) \<in> set (AList.delete k al) \<Longrightarrow> j \<in> snd ` set al"
  using vals_delete [of k al] by force

lemma entry_job: "cpc_job (entry c) = None"
  by (cases c) auto

lemma worker_step_jobs:
  assumes "worker_step v pc s = Next (pc', s')"
  shows "set (queue s') \<subseteq> set (queue s)"
    and "wpc_job pc' = Some j \<Longrightarrow> wpc_job pc = Some j \<or> j \<in> set (queue s)"
    and "j \<in> snd ` set (failedJobs s') \<Longrightarrow> j \<in> snd ` set (failedJobs s) \<or> wpc_job pc = Some j"
  using assms
  by (auto simp: worker_step_def worker_exit_def track_failed_def notify_frame
      dest: vals_updateD vals_deleteD
      split: wpc.splits list.splits if_splits option.splits)

lemma q_step_jobs:
  assumes "q_step i q s = Next (r, s')"
  shows "j \<in> set (queue s') \<Longrightarrow> j \<in> set (queue s) \<or> qpc_job q = Some j"
    and "r = Q_Cont q' \<Longrightarrow> qpc_job q' = Some j \<Longrightarrow> qpc_job q = Some j \<or> ctx j = Some (next_ctx s)"
    and "next_ctx s \<le> next_ctx s'"
  using assms
  by (auto simp: q_step_def notify_frame split: qpc.splits if_splits)

lemma q_step_all:
  assumes "q_step i q s = Next (r, s')"
  shows "failedJobs s' = failedJobs s \<and> next_ctx s \<le> next_ctx s'
     \<and> (\<forall>j. j \<in> set (queue s') \<longrightarrow> j \<in> set (queue s) \<or> qpc_job q = Some j)
     \<and> (\<forall>j q'. r = Q_Cont q' \<and> qpc_job q' = Some j
            \<longrightarrow> qpc_job q = Some j \<or> ctx j = Some (next_ctx s))"
  using assms
  by (auto simp: q_step_def notify_frame split: qpc.splits if_splits)

lemma retry_next_job: "cpc_job (retry_next jobs n) = None"
  by (cases jobs) auto

lemma caller_step_jobs:
  assumes "caller_step i pc s = Next (pc', s')"
  shows "j \<in> set (queue s') \<Longrightarrow> j \<in> set (queue s) \<or> cpc_job pc = Some j"
    and "cpc_job pc' = Some j \<Longrightarrow> cpc_job pc = Some j \<or> ctx j = Some (next_ctx s)"
    and "next_ctx s \<le> next_ctx s'"
    and "snd ` set (failedJobs s') \<subseteq> snd ` set (failedJobs s)"
  using assms
  by (auto simp: caller_step_def cancelDownload_def clearFailed_def pauseQueue_def resumeQueue_def
        retry_next_job
      dest!: q_step_all
      split: cpc.splits if_splits option.splits outcome.splits qres.splits prod.splits)

lemma snapshot_step_jobs:
  assumes "snapshot_step jobs pc s = Next (pc', s')"
  shows "queue s' = queue s" and "cpc_job pc' = None" and "next_ctx s' = next_ctx s"
    and "failedJobs s' = []"
  using assms
  by (auto simp: snapshot_step_def retry_next_job split: cpc.splits if_splits)

lemma ctx_allocated_mono:
  "ctx_allocated job s \<Longrightarrow> next_ctx s \<le> next_ctx s' \<Longrightarrow> ctx_allocated job s'"
  by (auto simp: ctx_allocated_def split: option.splits)

lemma ctx_allocated_fresh: "ctx_allocated job s \<Longrightarrow> ctx job \<noteq> Some (next_ctx s)"
  by (auto simp: ctx_allocated_def split: option.splits)

lemma exclusiveI:
  assumes "job \<notin> set (queue s)" and "job \<notin> snd ` set (failedJobs s)"
    and "\<And>v. v < length (goroutines s) \<Longrightarrow> v \<noteq> w \<Longrightarrow> wpc_job (goroutines s ! v) \<noteq> Some job"
    and "\<And>c. c \<in> set (calls s) \<Longrightarrow> cpc_job (snd c) \<noteq> Some job"
    and "ctx_allocated job s"
  shows "exclusive w job s"
  using assms by (simp add: exclusive_def)

lemma exclusiveD:
  assumes "exclusive w job s"
  shows "job \<notin> set (queue s)" and "job \<notin> snd ` set (failedJobs s)"
    and "v < length (goroutines s) \<Longrightarrow> v \<noteq> w \<Longrightarrow> wpc_job (goroutines s ! v) \<noteq> Some job"
    and "c \<in> set (calls s) \<Longrightarrow> cpc_job (snd c) \<noteq> Some job"
    and "ctx_allocated job s"
  using assms by (simp_all add: exclusive_def)

lemma exclusive_other:
  assumes ex: "exclusive w job s" and st: "step a s = Next s'" and other: "actor a \<noteq> Some (Worker w)"
  shows "exclusive w job s'"
proof (cases a)
  case (Invoke c)
  with st have s': "s' = s\<lparr>calls := calls s @ [(c, entry c)]\<rparr>" by simp
  show ?thesis
  proof (rule exclusiveI)
    fix x assume "x \<in> set (calls s')"
    with s' have "x \<in> set (calls s) \<or> x = (c, entry c)" by auto
    then show "cpc_job (snd x) \<noteq> Some job"
      using exclusiveD(4) [OF ex, of x] by (auto simp: entry_job)
  qed (use s' exclusiveD [OF ex] in \<open>simp_all add: ctx_allocated_def split: option.splits\<close>)
next
  case (C i)
  with st obtain pc' m where i: "i < length (calls s)"
    and m: "caller_step i (snd (calls s ! i)) s = Next (pc', m)"
    and s': "s' = m\<lparr>calls := (calls m)[i := (fst (calls m ! i), pc')]\<rparr>"
    by (auto simp: set_caller_def split: if_splits outcome.splits)
  from i have "calls s ! i \<in> set (calls s)" by simp
  from exclusiveD(4) [OF ex this] have held: "cpc_job (snd (calls s ! i)) \<noteq> Some job" .
  note c = exclusiveD(5) [OF ex]
  note fr = caller_step_frame [OF m] and jb = caller_step_jobs [OF m]
  from fr(6) obtain n where n: "goroutines m = goroutines s @ replicate n W_Range" by blast
  show ?thesis
  proof (rule exclusiveI)
    show "job \<notin> set (queue s')"
      using jb(1) [of job] held exclusiveD(1) [OF ex] s' by auto
    show "job \<notin> snd ` set (failedJobs s')"
      using jb(4) exclusiveD(2) [OF ex] s' by auto
    show "ctx_allocated job s'"
      by (rule ctx_allocated_mono [OF c]) (use jb(3) s' in simp)
  next
    fix v assume "v < length (goroutines s')" "v \<noteq> w"
    with s' n show "wpc_job (goroutines s' ! v) \<noteq> Some job"
      using exclusiveD(3) [OF ex, of v] by (auto simp: nth_append)
  next
    fix x assume "x \<in> set (calls s')"
    with s' fr(1) have "x \<in> set (calls s) \<or> x = (fst (calls s ! i), pc')"
      using set_update_subset_insert [of "calls s" i] by auto
    moreover have "cpc_job pc' \<noteq> Some job"
      using jb(2) [of job] held ctx_allocated_fresh [OF c] by auto
    ultimately show "cpc_job (snd x) \<noteq> Some job"
      using exclusiveD(4) [OF ex, of x] by auto
  qed
next
  case (Snap i jobs)
  with st obtain pc' m where i: "i < length (calls s)"
    and m: "snapshot_step jobs (snd (calls s ! i)) s = Next (pc', m)"
    and s': "s' = m\<lparr>calls := (calls m)[i := (fst (calls m ! i), pc')]\<rparr>"
    by (auto simp: set_caller_def split: if_splits outcome.splits)
  note fr = snapshot_step_frame [OF m] and jb = snapshot_step_jobs [OF m]
  show ?thesis
  proof (rule exclusiveI)
    fix x assume "x \<in> set (calls s')"
    with s' fr(1) have "x \<in> set (calls s) \<or> x = (fst (calls s ! i), pc')"
      using set_update_subset_insert [of "calls s" i] by auto
    then show "cpc_job (snd x) \<noteq> Some job"
      using exclusiveD(4) [OF ex, of x] jb(2) by auto
  next
    show "ctx_allocated job s'"
      by (rule ctx_allocated_mono [OF exclusiveD(5) [OF ex]]) (use jb(3) s' in simp)
  qed (use s' fr jb exclusiveD [OF ex] in simp_all)
next
  case (W v)
  with other have vw: "v \<noteq> w" by simp
  from W st obtain pc' m where v: "v < length (goroutines s)"
    and m: "worker_step v (goroutines s ! v) s = Next (pc', m)"
    and s': "s' = m\<lparr>goroutines := (goroutines m)[v := pc']\<rparr>"
    by (auto simp: set_worker_def split: if_splits outcome.splits)
  note fr = worker_step_frame [OF m] and jb = worker_step_jobs [OF m]
  from exclusiveD(3) [OF ex v vw] have held: "wpc_job (goroutines s ! v) \<noteq> Some job" .
  show ?thesis
  proof (rule exclusiveI)
    show "job \<notin> set (queue s')"
      using jb(1) exclusiveD(1) [OF ex] s' by auto
    show "job \<notin> snd ` set (failedJobs s')"
      using jb(3) [of job] held exclusiveD(2) [OF ex] s' by auto
    show "ctx_allocated job s'"
      by (rule ctx_allocated_mono [OF exclusiveD(5) [OF ex]]) (use fr(4) s' in simp)
  next
    fix u assume u: "u < length (goroutines s')" "u \<noteq> w"
    have "wpc_job pc' \<noteq> Some job"
      using jb(2) [of job] held exclusiveD(1) [OF ex] by auto
    with u s' fr(1) v show "wpc_job (goroutines s' ! u) \<noteq> Some job"
      using exclusiveD(3) [OF ex, of u] by (auto simp: nth_list_update)
  next
    fix x assume "x \<in> set (calls s')"
    with s' fr(2) show "cpc_job (snd x) \<noteq> Some job"
      using exclusiveD(4) [OF ex, of x] by simp
  qed
next
  case (Fetch v r e)
  with other have vw: "v \<noteq> w" by simp
  from Fetch st obtain pc' where v: "v < length (goroutines s)"
    and m: "fetch_step r e (goroutines s ! v) s = Next (pc', s)"
    and s': "s' = s\<lparr>goroutines := (goroutines s)[v := pc']\<rparr>"
    by (auto simp: set_worker_def dest: fetch_step_frame split: if_splits outcome.splits)
  from fetch_step_result [OF m] obtain j where j: "goroutines s ! v = P_Download j" "pc' = P_PostCheck j r e"
    by blast
  from exclusiveD(3) [OF ex v vw] j have held: "wpc_job pc' \<noteq> Some job" by simp
  show ?thesis
  proof (rule exclusiveI)
    fix u assume u: "u < length (goroutines s')" "u \<noteq> w"
    with s' held v show "wpc_job (goroutines s' ! u) \<noteq> Some job"
      using exclusiveD(3) [OF ex, of u] by (auto simp: nth_list_update)
  qed (use s' exclusiveD [OF ex] in \<open>simp_all add: ctx_allocated_def split: option.splits\<close>)
qed

lemma st_postcheck_reachable: "run sched_postcheck demo_init = Next st_postcheck"
  by code_simp

lemma exclusive_stable:
  "\<forall>a s s'. exclusive w job s \<and> step a s = Next s' \<and> actor a \<noteq> Some (Worker w)
      \<longrightarrow> exclusive w job s'"
  using exclusive_other by blast

lemma exclusive_done_stable:
  "\<forall>a s s'. (ctx_done job s \<and> exclusive w job s) \<and> step a s = Next s'
      \<and> actor a \<noteq> Some (Worker w) \<longrightarrow> (ctx_done job s' \<and> exclusive w job s')"
proof (intro allI impI, elim conjE)
  fix a s s'
  assume "ctx_done job s" "exclusive w job s" "step a s = Next s'" "actor a \<noteq> Some (Worker w)"
  then show "ctx_done job s' \<and> exclusive w job s'"
    using exclusive_other [of w job s a s'] ctx_done_mono [OF step_ctx_cancelled, of a s s' job]
    by simp
qed

text \<open>A step of the worker itself that leaves the queue and the Failed Registry alone
  keeps its job exclusive.\<close>

lemma exclusive_own:
  assumes "exclusive w job s" and "worker_step w pc s = Next (pc', m)"
    and "queue m = queue s" and "failedJobs m = failedJobs s"
  shows "exclusive w job (m\<lparr>goroutines := (goroutines s)[w := pc']\<rparr>)"
proof (rule exclusiveI)
  note fr = worker_step_frame [OF assms(2)]
  fix v assume "v < length (goroutines (m\<lparr>goroutines := (goroutines s)[w := pc']\<rparr>))" "v \<noteq> w"
  then show "wpc_job (goroutines (m\<lparr>goroutines := (goroutines s)[w := pc']\<rparr>) ! v) \<noteq> Some job"
    using exclusiveD(3) [OF assms(1), of v] by simp
next
  note fr = worker_step_frame [OF assms(2)]
  fix c assume "c \<in> set (calls (m\<lparr>goroutines := (goroutines s)[w := pc']\<rparr>))"
  with fr(2) show "cpc_job (snd c) \<noteq> Some job"
    using exclusiveD(4) [OF assms(1), of c] by simp
next
  note fr = worker_step_frame [OF assms(2)]
  show "ctx_allocated job (m\<lparr>goroutines := (goroutines s)[w := pc']\<rparr>)"
    by (rule ctx_allocated_mono [OF exclusiveD(5) [OF assms(1)]]) (use fr(4) in simp)
qed (use assms(3,4) exclusiveD [OF assms(1)] in simp_all)

lemma cancel_SendResult:
  assumes "until_return w acts s = Some s'" and "w < length (goroutines s)"
    and "goroutines s ! w = P_SendResult job r e c" and "exclusive w job s"
  shows "job \<notin> snd ` set (failedJobs s')"
proof -
  from until_return_worker_step [where P = "exclusive w job", OF assms(1-3) _ _ assms(4) exclusive_stable]
  obtain s1 pc' m s2 rest where
    s1: "exclusive w job s1"
    and m: "worker_step w (P_SendResult job r e c) s1 = Next (pc', m)"
    and s2: "s2 = m\<lparr>goroutines := (goroutines s1)[w := pc']\<rparr>"
    and rest: "if in_processJob pc' then until_return w rest s2 = Some s' else s2 = s'"
    by auto
  from m have "pc' = W_Range" and "failedJobs m = failedJobs s1"
    by (auto simp: worker_step_def split: if_splits)
  with rest s2 exclusiveD(2) [OF s1] show ?thesis
    by auto
qed

lemma cancel_Handle:
  assumes "until_return w acts s = Some s'" and "w < length (goroutines s)"
    and "goroutines s ! w = P_Handle job r e True" and "exclusive w job s"
  shows "job \<notin> snd ` set (failedJobs s')"
proof -
  from until_return_worker_step [where P = "exclusive w job", OF assms(1-3) _ _ assms(4) exclusive_stable]
  obtain s1 pc' m s2 rest where
    s1: "exclusive w job s1" "w < length (goroutines s1)"
    and m: "worker_step w (P_Handle job r e True) s1 = Next (pc', m)"
    and s2: "s2 = m\<lparr>goroutines := (goroutines s1)[w := pc']\<rparr>"
    and rest: "if in_processJob pc' then until_return w rest s2 = Some s' else s2 = s'"
    by auto
  from m have pc': "pc' = P_SendResult job r e True"
    and same: "queue m = queue s1" "failedJobs m = failedJobs s1"
    by (auto simp: worker_step_def notify_frame)
  from exclusive_own [OF s1(1) m same] s2 have "exclusive w job s2" by simp
  with pc' rest s2 s1 show ?thesis
    by (intro cancel_SendResult [of w rest s2 s' job r e True]) simp_all
qed

lemma cancel_RemoveActive:
  assumes "until_return w acts s = Some s'" and "w < length (goroutines s)"
    and "goroutines s ! w = P_RemoveActive job r e True" and "exclusive w job s"
  shows "job \<notin> snd ` set (failedJobs s')"
proof -
  from until_return_worker_step [where P = "exclusive w job", OF assms(1-3) _ _ assms(4) exclusive_stable]
  obtain s1 pc' m s2 rest where
    s1: "exclusive w job s1" "w < length (goroutines s1)"
    and m: "worker_step w (P_RemoveActive job r e True) s1 = Next (pc', m)"
    and s2: "s2 = m\<lparr>goroutines := (goroutines s1)[w := pc']\<rparr>"
    and rest: "if in_processJob pc' then until_return w rest s2 = Some s' else s2 = s'"
    by auto
  from m have pc': "pc' = P_Handle job r e True"
    and same: "queue m = queue s1" "failedJobs m = failedJobs s1"
    by (auto simp: worker_step_def)
  from exclusive_own [OF s1(1) m same] s2 have "exclusive w job s2" by simp
  with pc' rest s2 s1 show ?thesis
    by (intro cancel_Handle [of w rest s2 s' job r e]) simp_all
qed

lemma cancel_PostCheck:
  assumes "until_return w acts s = Some s'" and "w < length (goroutines s)"
    and "goroutines s ! w = P_PostCheck job r e" and "ctx_done job s" and "exclusive w job s"
  shows "job \<notin> snd ` set (failedJobs s')"
proof -
  from assms(4,5) have "ctx_done job s \<and> exclusive w job s" by simp
  from until_return_worker_step [where P = "\<lambda>x. ctx_done job x \<and> exclusive w job x",
      OF assms(1-3) _ _ this exclusive_done_stable]
  obtain s1 pc' m s2 rest where
    s1: "ctx_done job s1" "exclusive w job s1" "w < length (goroutines s1)"
    and m: "worker_step w (P_PostCheck job r e) s1 = Next (pc', m)"
    and s2: "s2 = m\<lparr>goroutines := (goroutines s1)[w := pc']\<rparr>"
    and rest: "if in_processJob pc' then until_return w rest s2 = Some s' else s2 = s'"
    by auto
  from m s1(1) have pc': "pc' = P_RemoveActive job r e True"
    and same: "queue m = queue s1" "failedJobs m = failedJobs s1"
    by (auto simp: worker_step_def)
  from exclusive_own [OF s1(2) m same] s2 have "exclusive w job s2" by simp
  with pc' rest s2 s1 show ?thesis
    by (intro cancel_RemoveActive [of w rest s2 s' job r e]) simp_all
qed

lemma st_retry_mark_reachable:
  "run (sched_requeue @ [W 0, W 0, W 0, W 0, W 0]) (SetProgressCallback (NewDownloadManager 2))
   = Next st_retry_mark"
  by code_simp

lemma exclusive_own_sub:
  assumes "exclusive w job s" and "worker_step w pc s = Next (pc', m)"
    and "queue m = queue s" and "snd ` set (failedJobs m) \<subseteq> snd ` set (failedJobs s)"
  shows "exclusive w job (m\<lparr>goroutines := (goroutines s)[w := pc']\<rparr>)"
proof (rule exclusiveI)
  note fr = worker_step_frame [OF assms(2)]
  fix v assume "v < length (goroutines (m\<lparr>goroutines := (goroutines s)[w := pc']\<rparr>))" "v \<noteq> w"
  then show "wpc_job (goroutines (m\<lparr>goroutines := (goroutines s)[w := pc']\<rparr>) ! v) \<noteq> Some job"
    using exclusiveD(3) [OF assms(1), of v] by simp
next
  note fr = worker_step_frame [OF assms(2)]
  fix c assume "c \<in> set (calls (m\<lparr>goroutines := (goroutines s)[w := pc']\<rparr>))"
  with fr(2) show "cpc_job (snd c) \<noteq> Some job"
    using exclusiveD(4) [OF assms(1), of c] by simp
next
  note fr = worker_step_frame [OF assms(2)]
  show "ctx_allocated job (m\<lparr>goroutines := (goroutines s)[w := pc']\<rparr>)"
    by (rule ctx_allocated_mono [OF exclusiveD(5) [OF assms(1)]]) (use fr(4) in simp)
next
  show "job \<notin> snd ` set (failedJobs (m\<lparr>goroutines := (goroutines s)[w := pc']\<rparr>))"
    using assms(4) exclusiveD(2) [OF assms(1)] by auto
qed (use assms(3) exclusiveD [OF assms(1)] in simp_all)

lemma told_exclusive_stable:
  "\<forall>a s s'. (onProgress s \<and> exclusive w job s) \<and> step a s = Next s'
      \<and> actor a \<noteq> Some (Worker w) \<longrightarrow> (onProgress s' \<and> exclusive w job s')"
proof (intro allI impI, elim conjE)
  fix a s s'
  assume "onProgress s" "exclusive w job s" "step a s = Next s'" "actor a \<noteq> Some (Worker w)"
  then show "onProgress s' \<and> exclusive w job s'"
    using exclusive_other [of w job s a s'] step_onProgress [of a s s'] by simp
qed

lemma quiet_Handle:
  assumes "until_return w acts s = Some s'" and "w < length (goroutines s)"
    and "goroutines s ! w = P_Handle job r e c" and "exclusive w job s"
    and "event_status (handle_event job r e c) \<noteq> StError"
  shows "job \<notin> snd ` set (failedJobs s')"
proof -
  from until_return_worker_step [where P = "exclusive w job", OF assms(1-3) _ _ assms(4) exclusive_stable]
  obtain s1 pc' m s2 rest where
    s1: "exclusive w job s1" "w < length (goroutines s1)"
    and m: "worker_step w (P_Handle job r e c) s1 = Next (pc', m)"
    and s2: "s2 = m\<lparr>goroutines := (goroutines s1)[w := pc']\<rparr>"
    and rest: "if in_processJob pc' then until_return w rest s2 = Some s' else s2 = s'"
    by auto
  from m assms(5) have pc': "pc' = P_SendResult job r e c"
    and same: "queue m = queue s1" "failedJobs m = failedJobs s1"
    by (auto simp: worker_step_def handle_event_def notify_frame split: if_splits option.splits)
  from exclusive_own [OF s1(1) m same] s2 have "exclusive w job s2" by simp
  with pc' rest s2 s1 show ?thesis
    by (intro cancel_SendResult [of w rest s2 s' job r e c]) simp_all
qed

lemma quiet_RemoveActive:
  assumes "until_return w acts s = Some s'" and "w < length (goroutines s)"
    and "goroutines s ! w = P_RemoveActive job r e c" and "exclusive w job s"
    and "event_status (handle_event job r e c) \<noteq> StError"
  shows "job \<notin> snd ` set (failedJobs s')"
proof -
  from until_return_worker_step [where P = "exclusive w job", OF assms(1-3) _ _ assms(4) exclusive_stable]
  obtain s1 pc' m s2 rest where
    s1: "exclusive w job s1" "w < length (goroutines s1)"
    and m: "worker_step w (P_RemoveActive job r e c) s1 = Next (pc', m)"
    and s2: "s2 = m\<lparr>goroutines := (goroutines s1)[w := pc']\<rparr>"
    and rest: "if in_processJob pc' then until_return w rest s2 = Some s' else s2 = s'"
    by auto
  from m have pc': "pc' = P_Handle job r e c"
    and same: "queue m = queue s1" "failedJobs m = failedJobs s1"
    by (auto simp: worker_step_def)
  from exclusive_own [OF s1(1) m same] s2 have "exclusive w job s2" by simp
  with pc' rest s2 s1 assms(5) show ?thesis
    by (intro quiet_Handle [of w rest s2 s' job r e c]) simp_all
qed

lemma quiet_PostCheck:
  assumes "until_return w acts s = Some s'" and "w < length (goroutines s)"
    and "goroutines s ! w = P_PostCheck job r e" and "onProgress s" and "exclusive w job s"
  shows "\<exists>c. emitted_by (Worker w) s s' = [handle_event job r e c]
           \<and> (event_status (handle_event job r e c) \<noteq> StError
                \<longrightarrow> job \<notin> snd ` set (failedJobs s'))"
proof -
  from assms(4,5) have "onProgress s \<and> exclusive w job s" by simp
  from until_return_worker_step [where P = "\<lambda>x. onProgress x \<and> exclusive w job x",
      OF assms(1-3) _ _ this told_exclusive_stable]
  obtain s1 pc' m s2 rest where
    s1: "onProgress s1" "exclusive w job s1" "w < length (goroutines s1)"
    and m: "worker_step w (P_PostCheck job r e) s1 = Next (pc', m)"
    and s2: "s2 = m\<lparr>goroutines := (goroutines s1)[w := pc']\<rparr>"
    and em: "emitted_by (Worker w) s s' = emitted_by (Worker w) s1 m @ emitted_by (Worker w) s2 s'"
    and rest: "if in_processJob pc' then until_return w rest s2 = Some s' else s2 = s'"
    by auto
  define c where "c = ctx_done job s1"
  from m have pc': "pc' = P_RemoveActive job r e c" and lg: "m = s1"
    by (auto simp: worker_step_def c_def)
  from lg have same: "queue m = queue s1" "failedJobs m = failedJobs s1" by simp_all
  from exclusive_own [OF s1(2) m same] s2 have ex2: "exclusive w job s2" by simp
  from pc' rest s2 s1 lg have ur2: "until_return w rest s2 = Some s'"
    and w2: "w < length (goroutines s2)" and pc2: "goroutines s2 ! w = P_RemoveActive job r e c"
    and cb2: "onProgress s2"
    by simp_all
  from ur_RemoveActive [OF ur2 w2 pc2 cb2] em lg
  have "emitted_by (Worker w) s s' = [handle_event job r e c]"
    by (simp add: emitted_by_refl)
  moreover have "event_status (handle_event job r e c) \<noteq> StError
      \<longrightarrow> job \<notin> snd ` set (failedJobs s')"
    using quiet_RemoveActive [OF ur2 w2 pc2 ex2] by blast
  ultimately show ?thesis by blast
qed

lemma quiet_Download:
  assumes "until_return w acts s = Some s'" and "w < length (goroutines s)"
    and "goroutines s ! w = P_Download job" and "onProgress s" and "exclusive w job s"
  shows "\<exists>r e c. emitted_by (Worker w) s s' = [handle_event job r e c]
           \<and> (event_status (handle_event job r e c) \<noteq> StError
                \<longrightarrow> job \<notin> snd ` set (failedJobs s'))"
proof -
  from assms(4,5) have "onProgress s \<and> exclusive w job s" by simp
  from until_return_fetch_step [where P = "\<lambda>x. onProgress x \<and> exclusive w job x",
      OF assms(1-3) this told_exclusive_stable]
  obtain s1 r e s2 rest where
    s1: "onProgress s1" "exclusive w job s1" "w < length (goroutines s1)"
    and s2: "s2 = s1\<lparr>goroutines := (goroutines s1)[w := P_PostCheck job r e]\<rparr>"
    and em: "emitted_by (Worker w) s s' = emitted_by (Worker w) s2 s'"
    and rest: "until_return w rest s2 = Some s'"
    by auto
  have "exclusive w job s2"
  proof (rule exclusiveI)
    fix v assume "v < length (goroutines s2)" "v \<noteq> w"
    with s2 show "wpc_job (goroutines s2 ! v) \<noteq> Some job"
      using exclusiveD(3) [OF s1(2), of v] by simp
  qed (use s2 exclusiveD [OF s1(2)] in \<open>simp_all add: ctx_allocated_def split: option.splits\<close>)
  with rest s2 s1 have "\<exists>c. emitted_by (Worker w) s2 s' = [handle_event job r e c]
           \<and> (event_status (handle_event job r e c) \<noteq> StError
                \<longrightarrow> job \<notin> snd ` set (failedJobs s'))"
    by (intro quiet_PostCheck [of w rest s2 s' job r e]) simp_all
  with em show ?thesis by auto
qed

lemma quiet_MarkActive:
  assumes "until_return w acts s = Some s'" and "w < length (goroutines s)"
    and "goroutines s ! w = P_MarkActive job" and "onProgress s" and "exclusive w job s"
  shows "\<exists>r e c. emitted_by (Worker w) s s' = [handle_event job r e c]
           \<and> (event_status (handle_event job r e c) \<noteq> StError
                \<longrightarrow> job \<notin> snd ` set (failedJobs s'))"
proof -
  from assms(4,5) have "onProgress s \<and> exclusive w job s" by simp
  from until_return_worker_step [where P = "\<lambda>x. onProgress x \<and> exclusive w job x",
      OF assms(1-3) _ _ this told_exclusive_stable]
  obtain s1 pc' m s2 rest where
    s1: "onProgress s1" "exclusive w job s1" "w < length (goroutines s1)"
    and m: "worker_step w (P_MarkActive job) s1 = Next (pc', m)"
    and s2: "s2 = m\<lparr>goroutines := (goroutines s1)[w := pc']\<rparr>"
    and em: "emitted_by (Worker w) s s' = emitted_by (Worker w) s1 m @ emitted_by (Worker w) s2 s'"
    and rest: "if in_processJob pc' then until_return w rest s2 = Some s' else s2 = s'"
    by auto
  from m have pc': "pc' = P_Download job" and lg: "log m = log s1" and cb: "onProgress m"
    and same: "queue m = queue s1"
    and del: "failedJobs m = AList.delete (TrackID job) (failedJobs s1)"
    using s1 by (auto simp: worker_step_def)
  from del have sub: "snd ` set (failedJobs m) \<subseteq> snd ` set (failedJobs s1)"
    by (simp add: vals_delete)
  note same = same sub
  from exclusive_own_sub [OF s1(2) m same] s2 have "exclusive w job s2" by simp
  with pc' rest s2 s1 cb have "\<exists>r e c. emitted_by (Worker w) s2 s' = [handle_event job r e c]
           \<and> (event_status (handle_event job r e c) \<noteq> StError
                \<longrightarrow> job \<notin> snd ` set (failedJobs s'))"
    by (intro quiet_Download [of w rest s2 s' job]) simp_all
  with em lg show ?thesis
    by (simp add: emitted_by_same)
qed

subsection \<open>When a retried id leaves the Failed Registry\<close>

lemma mark_active_solo:
  assumes "w < length (goroutines s)" and "goroutines s ! w = P_MarkActive job"
    and "onProgress s" and "Success (r::DownloadResult)" and "\<not> ctx_done job s"
  shows "until_return w [W w, Fetch w (Some r) None, W w, W w, W w, W w] s
         = Some (s\<lparr> activeJobs := AList.delete (TrackID job)
                                    (AList.update (TrackID job) job (activeJobs s)),
                    failedJobs := AList.delete (TrackID job) (failedJobs s),
                    log := log s @ [(Worker w, Event (TrackID job) StCompleted (Some r))],
                    results := (if length (results s) < queue_cap
                                then results s @ [Some r] else results s),
                    goroutines := (goroutines s)[w := W_Range] \<rparr>)"
  using assms
  by (simp add: set_worker_def worker_step_def fetch_step_def ctx_done_def notify_def
      split: option.splits)

text \<open>
  C2 as stated fails twice. After the re-enqueue of track 7 has returned without error,
  the Failed Registry still holds the entry for id 7 and \<^verbatim>\<open>GetFailedCount\<close> is 1. And
  when two jobs of id 7 run at once, one fails and is recorded, and the other then emits
  \<open>completed\<close> while the registry holds an entry for id 7.
\<close>

theorem requeue_keeps_failed_counterexample:
  "run sched_requeue (SetProgressCallback (NewDownloadManager 2)) = Next st_requeued
   \<and> calls st_requeued ! 2 = (QueueDownload 7 ''out'' ''t'' ''a'', Returned (RetErr None))
   \<and> map_of (failedJobs st_requeued) 7 = Some (demo_job 7 0)
   \<and> GetFailedCount st_requeued = 1
   \<and> run sched_twice st_requeued = Next st_twice
   \<and> last (log st_twice) = (Worker 0, Event 7 StCompleted (Some demo_ok))
   \<and> map_of (failedJobs st_twice) 7 = Some (demo_job 7 2)"
proof -
  have "run sched_requeue (SetProgressCallback (NewDownloadManager 2)) = Next st_requeued"
    by code_simp
  moreover have "run sched_twice st_requeued = Next st_twice"
    by code_simp
  ultimately show ?thesis
    by (simp add: st_requeued_def st_twice_def demo_defs GetFailedCount_def)
qed

subsection \<open>Retrying all failed jobs\<close>

lemma st_two_failed_reachable: "run sched_two_failed demo_init = Next st_two_failed"
  by code_simp

lemma run_append:
  "run (xs @ ys) s = (case run xs s of Next s' \<Rightarrow> run ys s' | Blocked \<Rightarrow> Blocked | Panic p \<Rightarrow> Panic p)"
  by (induction xs arbitrary: s) (auto split: outcome.splits)

lemma length_retry_copies: "length (retry_copies jobs c) = length jobs"
  by (induction jobs arbitrary: c) auto

lemma replicate_four: "replicate (4 * Suc n) x = [x, x, x, x] @ replicate (4 * n) x"
  by (simp add: numeral_eq_Suc)

text \<open>The loop, alone, on a running manager with room in the queue.\<close>

lemma retry_loop_running:
  assumes "i < length (calls s)" and "calls s ! i = (RetryAllFailed, retry_next jobs k)"
    and "running s" and "\<not> queue_closed s" and "length (queue s) + length jobs \<le> queue_cap"
    and "onProgress s"
  shows "run (replicate (4 * length jobs) (C i)) s
         = Next (s\<lparr> queue := queue s @ retry_copies jobs (next_ctx s),
                    next_ctx := next_ctx s + length jobs,
                    log := log s @ map (\<lambda>j. (Caller i, Event (TrackID j) StQueued None)) jobs,
                    calls := (calls s)[i := (RetryAllFailed, Returned (RetInt (k + length jobs)))] \<rparr>)"
  using assms
proof (induction jobs arbitrary: s k)
  case Nil
  then have "(calls s)[i := (RetryAllFailed, Returned (RetInt k))] = calls s"
    by (metis list_update_id retry_next.simps(1))
  then show ?case by simp
next
  case (Cons job rest)
  define job' where "job' = \<lparr> TrackID = TrackID job, OutputDir = OutputDir job, Title = Title job,
       Artist = Artist job, ctx = Some (next_ctx s), cancelFunc = Some (next_ctx s) \<rparr>"
  define s4 where "s4 = s\<lparr> queue := queue s @ [job'], next_ctx := Suc (next_ctx s),
      log := log s @ [(Caller i, Event (TrackID job) StQueued None)],
      calls := (calls s)[i := (RetryAllFailed, retry_next rest (Suc k))] \<rparr>"
  have four: "run [C i, C i, C i, C i] s = Next s4"
    using Cons.prems
    by (simp add: set_caller_def caller_step_def q_step_def notify_def s4_def job'_def)
  have "run (replicate (4 * length rest) (C i)) s4
         = Next (s4\<lparr> queue := queue s4 @ retry_copies rest (next_ctx s4),
                    next_ctx := next_ctx s4 + length rest,
                    log := log s4 @ map (\<lambda>j. (Caller i, Event (TrackID j) StQueued None)) rest,
                    calls := (calls s4)[i := (RetryAllFailed, Returned (RetInt (Suc k + length rest)))] \<rparr>)"
    using Cons.prems by (intro Cons.IH) (simp_all add: s4_def)
  with four show ?case
    by (simp only: length_Cons replicate_four run_append) (simp add: s4_def job'_def)
qed

text \<open>The loop, alone, on a manager that is not running.\<close>

lemma retry_loop_stopped:
  assumes "i < length (calls s)" and "calls s ! i = (RetryAllFailed, retry_next jobs k)"
    and "\<not> running s"
  shows "run (replicate (length jobs) (C i)) s
         = Next (s\<lparr> calls := (calls s)[i := (RetryAllFailed, Returned (RetInt k))] \<rparr>)"
  using assms
proof (induction jobs arbitrary: s)
  case Nil
  then have "(calls s)[i := (RetryAllFailed, Returned (RetInt k))] = calls s"
    by (metis list_update_id retry_next.simps(1))
  then show ?case by simp
next
  case (Cons job rest)
  define s1 where "s1 = s\<lparr> calls := (calls s)[i := (RetryAllFailed, retry_next rest k)] \<rparr>"
  have one: "step (C i) s = Next s1"
    using Cons.prems by (simp add: set_caller_def caller_step_def q_step_def s1_def)
  have "run (replicate (length rest) (C i)) s1
         = Next (s1\<lparr> calls := (calls s1)[i := (RetryAllFailed, Returned (RetInt k))] \<rparr>)"
    using Cons.prems by (intro Cons.IH) (simp_all add: s1_def)
  with one show ?case
    by (simp add: s1_def)
qed

text \<open>Under any interleaving, the counter grows by one with every \<open>queued\<close> the call
  emits, and never beyond the number of jobs captured.\<close>

lemma one_event: "\<exists>d. [(c, e)] = map (Pair c) d \<and> Suc 0 = length d \<and> length d \<le> Suc 0"
  by (rule exI [of _ "[e]"]) simp

lemma retry_step_count:
  assumes "caller_step i pc s = Next (pc', s')" and "retry_count pc = Some k" and "onProgress s"
  shows "\<exists>d. log s' = log s @ map (Pair (Caller i)) d
           \<and> retry_count pc' = Some (k + length d)
           \<and> k + length d + retry_left pc' \<le> k + retry_left pc"
proof (cases pc)
  case (RA_Call rest retried q)
  with assms show ?thesis
    by (cases q; cases rest)
      (auto simp: caller_step_def q_step_def notify_def one_event split: if_splits)
qed (use assms in \<open>auto simp: caller_step_def elim: retry_count.elims\<close>)

lemma retry_run_count:
  assumes "run acts s = Next s'" and "i < length (calls s)"
    and "retry_count (snd (calls s ! i)) = Some k" and "onProgress s"
  shows "retry_count (snd (calls s' ! i)) = Some (k + length (emitted_by (Caller i) s s'))
       \<and> k + length (emitted_by (Caller i) s s') + retry_left (snd (calls s' ! i))
           \<le> k + retry_left (snd (calls s ! i))"
  using assms
proof (induction acts arbitrary: s k)
  case Nil
  then show ?case by (simp add: emitted_by_refl)
next
  case (Cons a acts)
  then obtain s1 where st: "step a s = Next s1" and rest: "run acts s1 = Next s'"
    by (auto split: outcome.splits)
  from step_log [OF st] obtain d1 where d1: "log s1 = log s @ d1" by blast
  from rest have "\<exists>d. log s' = log s1 @ d"
    by (rule run_invariant [where P = "\<lambda>x. \<exists>d. log x = log s1 @ d"]) (auto dest: step_log)
  then obtain d2 where d2: "log s' = log s1 @ d2" by blast
  note split = emitted_by_trans [OF d1 d2, of "Caller i"]
  note cb1 = step_onProgress [OF st]
  show ?case
  proof (cases "actor a = Some (Caller i)")
    case False
    from step_caller_other [OF st False Cons.prems(2)]
    have same: "i < length (calls s1)" "calls s1 ! i = calls s ! i" by simp_all
    from Cons.IH [OF rest same(1), of k] same(2) Cons.prems(3,4) cb1
    show ?thesis
      using split step_emitted_other [OF st False] by simp
  next
    case True
    from step_caller_own [OF st True] obtain pc' m where
      own: "(a = C i \<and> caller_step i (snd (calls s ! i)) s = Next (pc', m))
            \<or> (\<exists>jobs. a = Snap i jobs \<and> snapshot_step jobs (snd (calls s ! i)) s = Next (pc', m))"
      and s1: "calls s1 ! i = (fst (calls s ! i), pc')" "length (calls s1) = length (calls s)"
        "log s1 = log m"
      by blast
    from own Cons.prems(3) have m: "caller_step i (snd (calls s ! i)) s = Next (pc', m)"
      by (auto dest: snapshot_step_pc)
    from retry_step_count [OF m Cons.prems(3,4)] obtain d where
      d: "log m = log s @ map (Pair (Caller i)) d" "retry_count pc' = Some (k + length d)"
        "k + length d + retry_left pc' \<le> k + retry_left (snd (calls s ! i))"
      by blast
    from d(1) s1(3) have em: "emitted_by (Caller i) s s1 = d"
      by (simp add: emitted_by_def comp_def)
    from Cons.IH [OF rest, of "k + length d"] s1 Cons.prems(2,4) d(2) cb1
    have "retry_count (snd (calls s' ! i))
            = Some (k + length d + length (emitted_by (Caller i) s1 s'))"
      and "k + length d + length (emitted_by (Caller i) s1 s') + retry_left (snd (calls s' ! i))
           \<le> k + length d + retry_left pc'"
      by simp_all
    with d(3) split em show ?thesis by simp
  qed
qed

lemma retry_next_count:
  "retry_count (retry_next jobs k) = Some k" "retry_left (retry_next jobs k) = length jobs"
  by (cases jobs; simp)+

text \<open>
  While the queue is open, or the manager is not running. \<^verbatim>\<open>RetryAllFailed\<close> takes
  the values of the Failed Registry (in the order of Go's map iteration) and empties the registry in one critical section. Then it calls
  \<^verbatim>\<open>QueueDownload\<close> for each captured job: on a running manager with room in the queue
  this sends a fresh copy of each job, with a newly allocated context, and the call
  returns the number of jobs; on a manager that is not running every re-enqueue fails,
  the call returns 0, and the jobs are gone from the registry. Under any interleaving
  the count returned is the number of re-enqueues that succeeded (each emitted its
  \<open>queued\<close>), at most the number of jobs captured, and after the snapshot the call never
  writes the Failed Registry again.
\<close>

lemma retryAllFailed_open_or_stopped:
  assumes "i < length (calls s)" and "calls s ! i = (RetryAllFailed, RA_Snapshot)"
    and "mset jobs = mset (map snd (failedJobs s))" and "onProgress s"
  shows "step (Snap i jobs) s
           = Next (s\<lparr> failedJobs := [],
                      calls := (calls s)[i := (RetryAllFailed, retry_next jobs 0)] \<rparr>)
    \<and> (running s \<and> \<not> queue_closed s \<and> length (queue s) + length jobs \<le> queue_cap \<longrightarrow>
          run (Snap i jobs # replicate (4 * length jobs) (C i)) s
          = Next (s\<lparr> failedJobs := [],
                     queue := queue s @ retry_copies jobs (next_ctx s),
                     next_ctx := next_ctx s + length jobs,
                     log := log s @ map (\<lambda>j. (Caller i, Event (TrackID j) StQueued None)) jobs,
                     calls := (calls s)[i := (RetryAllFailed, Returned (RetInt (length jobs)))] \<rparr>))
    \<and> (\<not> running s \<longrightarrow>
          run (Snap i jobs # replicate (length jobs) (C i)) s
          = Next (s\<lparr> failedJobs := [],
                     calls := (calls s)[i := (RetryAllFailed, Returned (RetInt 0))] \<rparr>))
    \<and> (\<forall>acts s' n. run (Snap i jobs # acts) s = Next s'
            \<and> snd (calls s' ! i) = Returned (RetInt n)
          \<longrightarrow> n = length (emitted_by (Caller i) s s') \<and> n \<le> length jobs)
    \<and> (\<forall>rest k q pc' t t'. caller_step i (RA_Call rest k q) t = Next (pc', t')
          \<longrightarrow> failedJobs t' = failedJobs t)"
proof -
  define s1 where "s1 = s\<lparr> failedJobs := [],
                      calls := (calls s)[i := (RetryAllFailed, retry_next jobs 0)] \<rparr>"
  have snap: "step (Snap i jobs) s = Next s1"
    using assms(1-3) by (simp add: set_caller_def snapshot_step_def s1_def)
  have i1: "i < length (calls s1)" and c1: "calls s1 ! i = (RetryAllFailed, retry_next jobs 0)"
    using assms(1) by (simp_all add: s1_def)
  have running: "run (Snap i jobs # replicate (4 * length jobs) (C i)) s
          = Next (s\<lparr> failedJobs := [],
                     queue := queue s @ retry_copies jobs (next_ctx s),
                     next_ctx := next_ctx s + length jobs,
                     log := log s @ map (\<lambda>j. (Caller i, Event (TrackID j) StQueued None)) jobs,
                     calls := (calls s)[i := (RetryAllFailed, Returned (RetInt (length jobs)))] \<rparr>)"
    if "running s \<and> \<not> queue_closed s \<and> length (queue s) + length jobs \<le> queue_cap"
  proof -
    from that assms(4) have "running s1" "\<not> queue_closed s1"
      "length (queue s1) + length jobs \<le> queue_cap" "onProgress s1"
      by (simp_all add: s1_def)
    from retry_loop_running [OF i1 c1 this] snap show ?thesis
      by (simp add: s1_def)
  qed
  have stopped: "run (Snap i jobs # replicate (length jobs) (C i)) s
          = Next (s\<lparr> failedJobs := [],
                     calls := (calls s)[i := (RetryAllFailed, Returned (RetInt 0))] \<rparr>)"
    if "\<not> running s"
  proof -
    from that have "\<not> running s1" by (simp add: s1_def)
    from retry_loop_stopped [OF i1 c1 this] snap show ?thesis
      by (simp add: s1_def)
  qed
  have count: "n = length (emitted_by (Caller i) s s') \<and> n \<le> length jobs"
    if "run (Snap i jobs # acts) s = Next s' \<and> snd (calls s' ! i) = Returned (RetInt n)"
    for acts s' n
  proof -
    from that snap have r: "run acts s1 = Next s'" and n: "snd (calls s' ! i) = Returned (RetInt n)"
      by simp_all
    from c1 have k: "retry_count (snd (calls s1 ! i)) = Some 0"
      and l: "retry_left (snd (calls s1 ! i)) = length jobs"
      by (simp_all add: retry_next_count)
    from assms(4) have cb: "onProgress s1" by (simp add: s1_def)
    have "log s1 = log s" by (simp add: s1_def)
    then have "emitted_by (Caller i) s s' = emitted_by (Caller i) s1 s'"
      by (simp add: emitted_by_def)
    with retry_run_count [OF r i1 k cb] n l show ?thesis
      by simp
  qed
  have frame: "failedJobs t' = failedJobs t"
    if "caller_step i (RA_Call rest k q) t = Next (pc', t')" for rest k q pc' t t'
    using that
    by (auto simp: caller_step_def dest: q_step_frame(5) split: outcome.splits qres.splits prod.splits)
  from snap running stopped count frame show ?thesis
    unfolding s1_def by blast
qed

lemma retryAllFailed_open_or_stopped_example:
  "calls st_two_failed ! 3 = (RetryAllFailed, RA_Snapshot)
   \<and> mset [demo_job 8 1, demo_job 7 0] = mset (map snd (failedJobs st_two_failed))
   \<and> onProgress st_two_failed \<and> running st_two_failed \<and> \<not> queue_closed st_two_failed
   \<and> GetFailedCount st_two_failed = 2
   \<and> run (Snap 3 [demo_job 8 1, demo_job 7 0] # replicate 8 (C 3)) st_two_failed = Next st_retried
   \<and> GetFailedCount st_retried = 0
   \<and> queue st_retried = [demo_job 8 2, demo_job 7 3]
   \<and> snd (calls st_retried ! 3) = Returned (RetInt 2)
   \<and> length (emitted_by (Caller 3) st_two_failed st_retried) = 2
   \<and> \<not> running st_two_failed_stopped
   \<and> run (Snap 3 [demo_job 8 1, demo_job 7 0] # replicate 2 (C 3)) st_two_failed_stopped
       = Next st_dropped
   \<and> GetFailedCount st_dropped = 0 \<and> queue st_dropped = []
   \<and> snd (calls st_dropped ! 3) = Returned (RetInt 0)"
proof -
  let ?jobs = "[demo_job 8 1, demo_job 7 0]"
  have i: "3 < length (calls st_two_failed)"
    and c: "calls st_two_failed ! 3 = (RetryAllFailed, RA_Snapshot)"
    and m: "mset ?jobs = mset (map snd (failedJobs st_two_failed))"
    and cb: "onProgress st_two_failed"
    and rn: "running st_two_failed" and op: "\<not> queue_closed st_two_failed"
    and room: "length (queue st_two_failed) + length ?jobs \<le> queue_cap"
    and cnt: "GetFailedCount st_two_failed = 2"
    by (simp_all add: st_two_failed_def demo_defs queue_cap_def GetFailedCount_def)
  have i': "3 < length (calls st_two_failed_stopped)"
    and c': "calls st_two_failed_stopped ! 3 = (RetryAllFailed, RA_Snapshot)"
    and m': "mset ?jobs = mset (map snd (failedJobs st_two_failed_stopped))"
    and cb': "onProgress st_two_failed_stopped"
    and stop: "\<not> running st_two_failed_stopped"
    by (simp_all add: st_two_failed_stopped_def st_two_failed_def demo_defs)
  note live = retryAllFailed_open_or_stopped [OF i c m cb]
  note dead = retryAllFailed_open_or_stopped [OF i' c' m' cb']
  have len: "4 * length ?jobs = 8" "length ?jobs = Suc (Suc 0)" "2 = Suc (Suc 0)"
    by simp_all
  have eq1: "st_two_failed\<lparr> failedJobs := [],
                     queue := queue st_two_failed @ retry_copies ?jobs (next_ctx st_two_failed),
                     next_ctx := next_ctx st_two_failed + length ?jobs,
                     log := log st_two_failed @ map (\<lambda>j. (Caller 3, Event (TrackID j) StQueued None)) ?jobs,
                     calls := (calls st_two_failed)[3 := (RetryAllFailed, Returned (RetInt (length ?jobs)))] \<rparr>
             = st_retried"
    by (simp add: st_retried_def st_two_failed_def demo_defs)
  have eq2: "st_two_failed_stopped\<lparr> failedJobs := [],
                     calls := (calls st_two_failed_stopped)[3 := (RetryAllFailed, Returned (RetInt 0))] \<rparr>
             = st_dropped"
    by (simp add: st_dropped_def st_two_failed_stopped_def st_two_failed_def demo_defs)
  from live rn op room
  have "run (Snap 3 ?jobs # replicate (4 * length ?jobs) (C 3)) st_two_failed
          = Next (st_two_failed\<lparr> failedJobs := [],
                     queue := queue st_two_failed @ retry_copies ?jobs (next_ctx st_two_failed),
                     next_ctx := next_ctx st_two_failed + length ?jobs,
                     log := log st_two_failed @ map (\<lambda>j. (Caller 3, Event (TrackID j) StQueued None)) ?jobs,
                     calls := (calls st_two_failed)[3 := (RetryAllFailed, Returned (RetInt (length ?jobs)))] \<rparr>)"
    by blast
  then have r1: "run (Snap 3 ?jobs # replicate 8 (C 3)) st_two_failed = Next st_retried"
    by (simp only: len(1) eq1)
  from live r1 have "length (emitted_by (Caller 3) st_two_failed st_retried) = 2"
    by (simp add: st_retried_def st_two_failed_def demo_defs emitted_by_def)
  moreover from dead stop
  have "run (Snap 3 ?jobs # replicate (length ?jobs) (C 3)) st_two_failed_stopped
          = Next (st_two_failed_stopped\<lparr> failedJobs := [],
                     calls := (calls st_two_failed_stopped)[3 := (RetryAllFailed, Returned (RetInt 0))] \<rparr>)"
    by blast
  then have r2: "run (Snap 3 ?jobs # replicate 2 (C 3)) st_two_failed_stopped = Next st_dropped"
    by (simp only: len(2,3) eq2)
  moreover have "GetFailedCount st_retried = 0" "queue st_retried = [demo_job 8 2, demo_job 7 3]"
    "snd (calls st_retried ! 3) = Returned (RetInt 2)"
    "GetFailedCount st_dropped = 0" "queue st_dropped = []"
    "snd (calls st_dropped ! 3) = Returned (RetInt 0)"
    by (simp_all add: st_retried_def st_dropped_def st_two_failed_stopped_def st_two_failed_def
        demo_defs GetFailedCount_def)
  ultimately show ?thesis
    using c m cb rn op cnt r1 stop by blast
qed

subsection \<open>Enqueueing and the state of the manager\<close>

text \<open>On a manager that is not running, \<^verbatim>\<open>QueueDownload\<close> returns the error at its
  first step and changes nothing.\<close>

lemma queueDownload_not_running:
  assumes "i < length (calls s)"
    and "calls s ! i = (QueueDownload trackID outputDir title artist,
                        QD (Q_Check trackID outputDir title artist))"
    and "\<not> running s"
  shows "step (C i) s
         = Next (s\<lparr>calls := (calls s)[i := (QueueDownload trackID outputDir title artist,
                                             Returned (RetErr (Some NotRunning)))]\<rparr>)"
  using assms by (simp add: set_caller_def caller_step_def q_step_def)

text \<open>On a running manager whose queue is open and has room, \<^verbatim>\<open>QueueDownload\<close> alone
  admits the job, emits \<open>queued\<close> and returns no error; with the queue full the send
  blocks.\<close>

lemma queueDownload_running_open:
  assumes "i < length (calls s)"
    and "calls s ! i = (QueueDownload trackID outputDir title artist,
                        QD (Q_Check trackID outputDir title artist))"
    and "running s" and "\<not> queue_closed s" and "length (queue s) < queue_cap"
  shows "run [C i, C i, C i, C i] s
         = Next ((notify (Caller i) trackID StQueued None s)
                  \<lparr> queue := queue s @ [\<lparr> TrackID = trackID, OutputDir = outputDir,
                                           Title = title, Artist = artist,
                                           ctx = Some (next_ctx s), cancelFunc = Some (next_ctx s) \<rparr>],
                    next_ctx := Suc (next_ctx s),
                    calls := (calls s)[i := (QueueDownload trackID outputDir title artist,
                                             Returned (RetErr None))] \<rparr>)"
  using assms by (simp add: set_caller_def caller_step_def q_step_def notify_def)

lemma queueDownload_send:
  "q_step i (Q_Send job) s
   = (if queue_closed s then Panic SendOnClosedChannel
      else if length (queue s) \<ge> queue_cap then Blocked
      else Next (Q_Cont (Q_Notify (TrackID job)), s\<lparr>queue := queue s @ [job]\<rparr>))"
  by (simp add: q_step_def)

text \<open>
  C6. The first half holds (\<open>queueDownload_not_running\<close>). The second half fails on a
  manager that was stopped and started again: \<open>running\<close> is true, the call passes its
  check, and the send on the queue that \<^verbatim>\<open>Stop\<close> closed panics, because
  \<^verbatim>\<open>Start\<close> does not make a new channel.
\<close>

theorem queueDownload_after_restart_panics:
  "run sched_restart (SetProgressCallback (NewDownloadManager 1)) = Next st_restarted
   \<and> IsRunning st_restarted
   \<and> calls st_restarted ! 3 = (QueueDownload 7 ''out'' ''t'' ''a'', QD (Q_Send (demo_job 7 0)))
   \<and> step (C 3) st_restarted = Panic SendOnClosedChannel
   \<and> run (sched_restart @ [C 3]) (SetProgressCallback (NewDownloadManager 1))
       = Panic SendOnClosedChannel"
proof -
  have reach: "run sched_restart (SetProgressCallback (NewDownloadManager 1)) = Next st_restarted"
    by code_simp
  have pc: "calls st_restarted ! 3 = (QueueDownload 7 ''out'' ''t'' ''a'', QD (Q_Send (demo_job 7 0)))"
    and rn: "IsRunning st_restarted"
    and panic: "step (C 3) st_restarted = Panic SendOnClosedChannel"
    by (simp_all add: st_restarted_def demo_defs IsRunning_def set_caller_def caller_step_def
        q_step_def)
  from reach panic have "run (sched_restart @ [C 3]) (SetProgressCallback (NewDownloadManager 1))
       = Panic SendOnClosedChannel"
    by (simp add: run_append)
  with reach pc rn panic show ?thesis
    by blast
qed

subsection \<open>Every job has its cancel function\<close>












subsection \<open>Cancelling by id\<close>



subsection \<open>Pause, resume and stop are idempotent\<close>

lemma st_stopped_reachable: "run sched_stopped demo_init = Next st_stopped"
  by code_simp

text \<open>
  C7. \<^verbatim>\<open>PauseQueue\<close> and \<^verbatim>\<open>ResumeQueue\<close> return a boolean and never an error.
  \<^verbatim>\<open>PauseQueue\<close> returns false and changes nothing when the queue is paused already,
  and otherwise sets \<open>paused\<close> and returns true; \<^verbatim>\<open>ResumeQueue\<close> returns false and
  changes nothing when the queue is not paused, and otherwise clears \<open>paused\<close> and
  returns true, after which every worker waiting at the gate can go on. \<^verbatim>\<open>Stop\<close>
  leaves \<open>running\<close> false, and \<^verbatim>\<open>Stop\<close> on a manager that is not running returns at
  once with the state as it was: the queue is not closed again and no event is emitted.
\<close>

theorem pause_resume_stop_idempotent:
  "(paused s \<longrightarrow> pauseQueue s = (s, False))
   \<and> (\<not> paused s \<longrightarrow> pauseQueue s = (s\<lparr>paused := True\<rparr>, True))
   \<and> pauseQueue (fst (pauseQueue s)) = (fst (pauseQueue s), False)
   \<and> (\<not> paused s \<longrightarrow> resumeQueue s = (s, False))
   \<and> (paused s \<longrightarrow> resumeQueue s = (s\<lparr>paused := False\<rparr>, True))
   \<and> resumeQueue (fst (resumeQueue s)) = (fst (resumeQueue s), False)
   \<and> (\<forall>w job. w < length (goroutines s) \<and> goroutines s ! w = W_PauseWait job \<longrightarrow>
         step (W w) (fst (resumeQueue s))
         = Next ((fst (resumeQueue s))\<lparr>goroutines := (goroutines s)[w := W_CheckRunning job]\<rparr>))
   \<and> (\<forall>pc' s'. caller_step i Stop_Check s = Next (pc', s') \<longrightarrow> \<not> running s')
   \<and> (\<not> running s \<longrightarrow> caller_step i Stop_Check s = Next (Returned RetUnit, s))
   \<and> (\<not> running s \<and> i < length (calls s) \<and> calls s ! i = (Stop, Stop_Check) \<longrightarrow>
         step (C i) s = Next (s\<lparr>calls := (calls s)[i := (Stop, Returned RetUnit)]\<rparr>))"
  by (auto simp: pauseQueue_def resumeQueue_def caller_step_def worker_step_def set_worker_def
      set_caller_def)

theorem pause_resume_stop_idempotent_witness:
  "paused st_paused
   \<and> pauseQueue st_paused = (st_paused, False)
   \<and> resumeQueue st_paused = (st_paused\<lparr>paused := False\<rparr>, True)
   \<and> step (W 0) st_paused = Blocked
   \<and> step (W 0) (st_paused\<lparr>paused := False\<rparr>)
       = Next (st_paused\<lparr>paused := False, goroutines := [W_CheckRunning (demo_job 7 0)]\<rparr>)
   \<and> \<not> paused st_stopped
   \<and> pauseQueue st_stopped = (st_stopped\<lparr>paused := True\<rparr>, True)
   \<and> resumeQueue st_stopped = (st_stopped, False)
   \<and> \<not> running st_stopped \<and> queue_closed st_stopped
   \<and> calls st_stopped ! 2 = (Stop, Stop_Check)
   \<and> step (C 2) st_stopped
       = Next (st_stopped\<lparr>calls := [(Start, Returned RetUnit), (Stop, Returned RetUnit),
                                     (Stop, Returned RetUnit)]\<rparr>)"
proof -
  have p: "paused st_paused"
    and g: "0 < length (goroutines st_paused) \<and> goroutines st_paused ! 0 = W_PauseWait (demo_job 7 0)"
    and gs: "(goroutines st_paused)[0 := W_CheckRunning (demo_job 7 0)] = [W_CheckRunning (demo_job 7 0)]"
    and blocked: "step (W 0) st_paused = Blocked"
    by (simp_all add: st_paused_def demo_defs worker_step_def set_worker_def)
  have q: "\<not> paused st_stopped" and r: "\<not> running st_stopped" and cl: "queue_closed st_stopped"
    and c: "2 < length (calls st_stopped)" "calls st_stopped ! 2 = (Stop, Stop_Check)"
    and cs: "(calls st_stopped)[2 := (Stop, Returned RetUnit)]
             = [(Start, Returned RetUnit), (Stop, Returned RetUnit), (Stop, Returned RetUnit)]"
    by (simp_all add: st_stopped_def demo_defs)
  note paused_case = pause_resume_stop_idempotent [of st_paused 0]
  note stopped_case = pause_resume_stop_idempotent [of st_stopped 2]
  from paused_case p have pq: "pauseQueue st_paused = (st_paused, False)"
    and rq: "resumeQueue st_paused = (st_paused\<lparr>paused := False\<rparr>, True)"
    by blast+
  from paused_case g
  have "step (W 0) (fst (resumeQueue st_paused))
        = Next ((fst (resumeQueue st_paused))\<lparr>goroutines := (goroutines st_paused)[0 := W_CheckRunning (demo_job 7 0)]\<rparr>)"
    by blast
  then have released: "step (W 0) (st_paused\<lparr>paused := False\<rparr>)
       = Next (st_paused\<lparr>paused := False, goroutines := [W_CheckRunning (demo_job 7 0)]\<rparr>)"
    by (simp only: rq gs fst_conv)
  from stopped_case q r have "pauseQueue st_stopped = (st_stopped\<lparr>paused := True\<rparr>, True)"
    and "resumeQueue st_stopped = (st_stopped, False)"
    by blast+
  moreover from stopped_case r c
  have "step (C 2) st_stopped = Next (st_stopped\<lparr>calls := (calls st_stopped)[2 := (Stop, Returned RetUnit)]\<rparr>)"
    by blast
  then have "step (C 2) st_stopped
       = Next (st_stopped\<lparr>calls := [(Start, Returned RetUnit), (Stop, Returned RetUnit),
                                     (Stop, Returned RetUnit)]\<rparr>)"
    by (simp only: cs)
  ultimately show ?thesis
    using p q r cl c(2) blocked pq rq released by blast
qed

subsection \<open>Every job pointer is in one place\<close>

lemma held_onlyI:
  assumes "job \<notin> set (queue s)"
    and "\<And>v. v < length (goroutines s) \<Longrightarrow> Worker v \<noteq> t \<Longrightarrow> wpc_job (goroutines s ! v) \<noteq> Some job"
    and "\<And>k. k < length (calls s) \<Longrightarrow> Caller k \<noteq> t \<Longrightarrow> cpc_job (snd (calls s ! k)) \<noteq> Some job"
    and "ctx_allocated job s"
  shows "held_only t job s"
  using assms by (simp add: held_only_def)

lemma held_onlyD:
  assumes "held_only t job s"
  shows "job \<notin> set (queue s)"
    and "v < length (goroutines s) \<Longrightarrow> Worker v \<noteq> t \<Longrightarrow> wpc_job (goroutines s ! v) \<noteq> Some job"
    and "k < length (calls s) \<Longrightarrow> Caller k \<noteq> t \<Longrightarrow> cpc_job (snd (calls s ! k)) \<noteq> Some job"
    and "ctx_allocated job s"
  using assms by (simp_all add: held_only_def)

text \<open>A step of another goroutine keeps the job with its holder, and out of the Failed
  Registry.\<close>

lemma held_only_other:
  assumes ex: "held_only t job s" and st: "step a s = Next s'" and other: "actor a \<noteq> Some t"
  shows "held_only t job s'"
proof (cases a)
  case (Invoke c)
  with st have s': "s' = s\<lparr>calls := calls s @ [(c, entry c)]\<rparr>" by simp
  show ?thesis
  proof (rule held_onlyI)
    fix k assume "k < length (calls s')" "Caller k \<noteq> t"
    with s' show "cpc_job (snd (calls s' ! k)) \<noteq> Some job"
      using held_onlyD(3) [OF ex, of k] by (auto simp: nth_append entry_job)
  qed (use s' held_onlyD [OF ex] in \<open>simp_all add: ctx_allocated_def split: option.splits\<close>)
next
  case (C i)
  with other have it: "Caller i \<noteq> t" by simp
  from C st obtain pc' m where i: "i < length (calls s)"
    and m: "caller_step i (snd (calls s ! i)) s = Next (pc', m)"
    and s': "s' = m\<lparr>calls := (calls m)[i := (fst (calls m ! i), pc')]\<rparr>"
    by (auto simp: set_caller_def split: if_splits outcome.splits)
  from held_onlyD(3) [OF ex i it] have held: "cpc_job (snd (calls s ! i)) \<noteq> Some job" .
  note c = held_onlyD(4) [OF ex]
  note fr = caller_step_frame [OF m] and jb = caller_step_jobs [OF m]
  from fr(6) obtain n where n: "goroutines m = goroutines s @ replicate n W_Range" by blast
  have new: "cpc_job pc' \<noteq> Some job"
    using jb(2) [of job] held ctx_allocated_fresh [OF c] by auto
  show ?thesis
  proof (rule held_onlyI)
    show "job \<notin> set (queue s')"
      using jb(1) [of job] held held_onlyD(1) [OF ex] s' by auto
    show "ctx_allocated job s'"
      by (rule ctx_allocated_mono [OF c]) (use jb(3) s' in simp)
  next
    fix v assume "v < length (goroutines s')" "Worker v \<noteq> t"
    with s' n show "wpc_job (goroutines s' ! v) \<noteq> Some job"
      using held_onlyD(2) [OF ex, of v] by (auto simp: nth_append)
  next
    fix k assume "k < length (calls s')" "Caller k \<noteq> t"
    with s' fr(1) new i show "cpc_job (snd (calls s' ! k)) \<noteq> Some job"
      using held_onlyD(3) [OF ex, of k] by (auto simp: nth_list_update)
  qed
next
  case (Snap i jobs)
  from Snap st obtain pc' m where i: "i < length (calls s)"
    and m: "snapshot_step jobs (snd (calls s ! i)) s = Next (pc', m)"
    and s': "s' = m\<lparr>calls := (calls m)[i := (fst (calls m ! i), pc')]\<rparr>"
    by (auto simp: set_caller_def split: if_splits outcome.splits)
  note fr = snapshot_step_frame [OF m] and jb = snapshot_step_jobs [OF m]
  show ?thesis
  proof (rule held_onlyI)
    fix k assume "k < length (calls s')" "Caller k \<noteq> t"
    with s' fr(1) jb(2) i show "cpc_job (snd (calls s' ! k)) \<noteq> Some job"
      using held_onlyD(3) [OF ex, of k] by (auto simp: nth_list_update)
  next
    show "ctx_allocated job s'"
      by (rule ctx_allocated_mono [OF held_onlyD(4) [OF ex]]) (use jb(3) s' in simp)
  next
    fix v assume "v < length (goroutines s')" "Worker v \<noteq> t"
    with s' fr show "wpc_job (goroutines s' ! v) \<noteq> Some job"
      using held_onlyD(2) [OF ex, of v] by simp
  qed (use s' fr jb held_onlyD [OF ex] in simp_all)
next
  case (W v)
  with other have vt: "Worker v \<noteq> t" by simp
  from W st obtain pc' m where v: "v < length (goroutines s)"
    and m: "worker_step v (goroutines s ! v) s = Next (pc', m)"
    and s': "s' = m\<lparr>goroutines := (goroutines m)[v := pc']\<rparr>"
    by (auto simp: set_worker_def split: if_splits outcome.splits)
  note fr = worker_step_frame [OF m] and jb = worker_step_jobs [OF m]
  from held_onlyD(2) [OF ex v vt] have held: "wpc_job (goroutines s ! v) \<noteq> Some job" .
  have new: "wpc_job pc' \<noteq> Some job"
    using jb(2) [of job] held held_onlyD(1) [OF ex] by auto
  show ?thesis
  proof (rule held_onlyI)
    show "job \<notin> set (queue s')"
      using jb(1) held_onlyD(1) [OF ex] s' by auto
    show "ctx_allocated job s'"
      by (rule ctx_allocated_mono [OF held_onlyD(4) [OF ex]]) (use fr(4) s' in simp)
  next
    fix u assume "u < length (goroutines s')" "Worker u \<noteq> t"
    with s' fr(1) v new show "wpc_job (goroutines s' ! u) \<noteq> Some job"
      using held_onlyD(2) [OF ex, of u] by (auto simp: nth_list_update)
  next
    fix k assume "k < length (calls s')" "Caller k \<noteq> t"
    with s' fr(2) show "cpc_job (snd (calls s' ! k)) \<noteq> Some job"
      using held_onlyD(3) [OF ex, of k] by simp
  qed
next
  case (Fetch v r e)
  with other have vt: "Worker v \<noteq> t" by simp
  from Fetch st obtain pc' where v: "v < length (goroutines s)"
    and m: "fetch_step r e (goroutines s ! v) s = Next (pc', s)"
    and s': "s' = s\<lparr>goroutines := (goroutines s)[v := pc']\<rparr>"
    by (auto simp: set_worker_def dest: fetch_step_frame split: if_splits outcome.splits)
  from fetch_step_result [OF m] obtain j where j: "goroutines s ! v = P_Download j" "pc' = P_PostCheck j r e"
    by blast
  from held_onlyD(2) [OF ex v vt] j have new: "wpc_job pc' \<noteq> Some job" by simp
  show ?thesis
  proof (rule held_onlyI)
    fix u assume "u < length (goroutines s')" "Worker u \<noteq> t"
    with s' new v show "wpc_job (goroutines s' ! u) \<noteq> Some job"
      using held_onlyD(2) [OF ex, of u] by (auto simp: nth_list_update)
  next
    fix k assume "k < length (calls s')" "Caller k \<noteq> t"
    with s' show "cpc_job (snd (calls s' ! k)) \<noteq> Some job"
      using held_onlyD(3) [OF ex, of k] by simp
  qed (use s' held_onlyD [OF ex] in \<open>simp_all add: ctx_allocated_def split: option.splits\<close>)
qed

lemma unfailed_other:
  assumes ex: "held_only t job s" and un: "unfailed job s"
    and st: "step a s = Next s'" and other: "actor a \<noteq> Some t"
  shows "unfailed job s'"
proof (cases a)
  case (Invoke c)
  with st un show ?thesis by (auto simp: unfailed_def)
next
  case (C i)
  from C st obtain pc' m where m: "caller_step i (snd (calls s ! i)) s = Next (pc', m)"
    and s': "s' = m\<lparr>calls := (calls m)[i := (fst (calls m ! i), pc')]\<rparr>"
    by (auto simp: set_caller_def split: if_splits outcome.splits)
  from caller_step_jobs(4) [OF m] un s' show ?thesis
    by (auto simp: unfailed_def)
next
  case (Snap i jobs)
  from Snap st obtain pc' m where m: "snapshot_step jobs (snd (calls s ! i)) s = Next (pc', m)"
    and s': "s' = m\<lparr>calls := (calls m)[i := (fst (calls m ! i), pc')]\<rparr>"
    by (auto simp: set_caller_def split: if_splits outcome.splits)
  from snapshot_step_jobs(4) [OF m] s' show ?thesis
    by (simp add: unfailed_def)
next
  case (W v)
  with other have vt: "Worker v \<noteq> t" by simp
  from W st obtain pc' m where v: "v < length (goroutines s)"
    and m: "worker_step v (goroutines s ! v) s = Next (pc', m)"
    and s': "s' = m\<lparr>goroutines := (goroutines m)[v := pc']\<rparr>"
    by (auto simp: set_worker_def split: if_splits outcome.splits)
  from held_onlyD(2) [OF ex v vt] have "wpc_job (goroutines s ! v) \<noteq> Some job" .
  with worker_step_jobs(3) [OF m, of job] un s' show ?thesis
    by (auto simp: unfailed_def)
next
  case (Fetch v r e)
  from Fetch st obtain pc' where "s' = s\<lparr>goroutines := (goroutines s)[v := pc']\<rparr>"
    by (auto simp: set_worker_def dest: fetch_step_frame split: if_splits outcome.splits)
  with un show ?thesis
    by (simp add: unfailed_def)
qed

lemma exclusive_iff: "exclusive w job s \<longleftrightarrow> held_only (Worker w) job s \<and> unfailed job s"
proof -
  have "(\<forall>c \<in> set (calls s). cpc_job (snd c) \<noteq> Some job)
        \<longleftrightarrow> (\<forall>k < length (calls s). cpc_job (snd (calls s ! k)) \<noteq> Some job)"
    by (metis in_set_conv_nth)
  then show ?thesis
    by (auto simp: exclusive_def held_only_def unfailed_def)
qed

lemma step_next_ctx:
  assumes "step a s = Next s'"
  shows "next_ctx s \<le> next_ctx s'"
  using assms
  by (cases a)
    (auto simp: set_caller_def set_worker_def
      dest: caller_step_jobs(3) snapshot_step_jobs(3) worker_step_frame(4) fetch_step_frame
      split: if_splits outcome.splits prod.splits)

lemma step_queue:
  assumes "step a s = Next s'"
  shows "queue s' = queue s
    \<or> (\<exists>v job. a = W v \<and> v < length (goroutines s) \<and> goroutines s ! v = W_Range
          \<and> queue s = job # queue s')
    \<or> (\<exists>i job. a = C i \<and> i < length (calls s) \<and> cpc_job (snd (calls s ! i)) = Some job
          \<and> queue s' = queue s @ [job] \<and> failedJobs s' = failedJobs s)"
proof (cases a)
  case (C i)
  with assms obtain pc' m where i: "i < length (calls s)"
    and m: "caller_step i (snd (calls s ! i)) s = Next (pc', m)"
    and s': "s' = m\<lparr>calls := (calls m)[i := (fst (calls m ! i), pc')]\<rparr>"
    by (auto simp: set_caller_def split: if_splits outcome.splits)
  from m have "queue m = queue s
    \<or> (\<exists>job. cpc_job (snd (calls s ! i)) = Some job \<and> queue m = queue s @ [job]
          \<and> failedJobs m = failedJobs s)"
    by (cases "snd (calls s ! i)")
      (auto simp: caller_step_def q_step_def cancelDownload_def clearFailed_def pauseQueue_def
          resumeQueue_def notify_frame
        split: if_splits option.splits qpc.splits)
  with C i s' show ?thesis by auto
next
  case (W v)
  with assms obtain pc' m where v: "v < length (goroutines s)"
    and m: "worker_step v (goroutines s ! v) s = Next (pc', m)"
    and s': "s' = m\<lparr>goroutines := (goroutines m)[v := pc']\<rparr>"
    by (auto simp: set_worker_def split: if_splits outcome.splits)
  from m have "queue m = queue s \<or> (\<exists>job. goroutines s ! v = W_Range \<and> queue s = job # queue m)"
    by (cases "goroutines s ! v")
      (auto simp: worker_step_def worker_exit_def track_failed_def notify_frame
        split: list.splits if_splits option.splits)
  with W v s' show ?thesis by auto
qed (use assms in \<open>auto simp: set_caller_def set_worker_def
      dest: snapshot_step_jobs(1) fetch_step_frame split: if_splits outcome.splits\<close>)

lemma step_failed:
  assumes "step a s = Next s'" and "job \<in> snd ` set (failedJobs s')"
  shows "job \<in> snd ` set (failedJobs s)
    \<or> (\<exists>v. a = W v \<and> v < length (goroutines s) \<and> wpc_job (goroutines s ! v) = Some job
          \<and> queue s' = queue s)"
proof (cases a)
  case (C i)
  with assms(1) obtain pc' m where m: "caller_step i (snd (calls s ! i)) s = Next (pc', m)"
    and s': "s' = m\<lparr>calls := (calls m)[i := (fst (calls m ! i), pc')]\<rparr>"
    by (auto simp: set_caller_def split: if_splits outcome.splits)
  from caller_step_jobs(4) [OF m] assms(2) s' show ?thesis by auto
next
  case (W v)
  with assms(1) obtain pc' m where v: "v < length (goroutines s)"
    and m: "worker_step v (goroutines s ! v) s = Next (pc', m)"
    and s': "s' = m\<lparr>goroutines := (goroutines m)[v := pc']\<rparr>"
    by (auto simp: set_worker_def split: if_splits outcome.splits)
  from assms(2) s' have in_m: "job \<in> snd ` set (failedJobs m)" by simp
  from m in_m have "job \<in> snd ` set (failedJobs s)
      \<or> (wpc_job (goroutines s ! v) = Some job \<and> queue m = queue s)"
    by (cases "goroutines s ! v")
      (auto simp: worker_step_def worker_exit_def track_failed_def notify_frame
        dest: vals_updateD vals_deleteD
        split: list.splits if_splits option.splits)
  with W v s' show ?thesis by auto
next
  case (Fetch v r e)
  with assms(1) obtain pc' where "s' = s\<lparr>goroutines := (goroutines s)[v := pc']\<rparr>"
    by (auto simp: set_worker_def dest: fetch_step_frame split: if_splits outcome.splits)
  with assms(2) show ?thesis by simp
qed (use assms in \<open>auto simp: set_caller_def dest: snapshot_step_jobs(4)
      split: if_splits outcome.splits\<close>)

text \<open>Where the job of a worker after its own step comes from.\<close>

lemma worker_step_holds:
  assumes "worker_step w pc s = Next (pc', m)" and "wpc_job pc' = Some job"
  shows "(wpc_job pc = Some job \<and> queue m = queue s
          \<and> (\<not> past_record pc' \<longrightarrow>
                \<not> past_record pc \<and> snd ` set (failedJobs m) \<subseteq> snd ` set (failedJobs s)))
    \<or> (pc = W_Range \<and> pc' = W_PauseWait job \<and> queue s = job # queue m
          \<and> failedJobs m = failedJobs s)"
  using assms
  by (cases pc)
    (auto simp: worker_step_def worker_exit_def track_failed_def notify_frame
      dest: vals_deleteD
      split: list.splits if_splits option.splits)

lemma caller_step_holds:
  assumes "caller_step i pc s = Next (pc', m)" and "cpc_job pc' = Some job"
  shows "ctx job = Some (next_ctx s) \<and> m = s\<lparr>next_ctx := Suc (next_ctx s)\<rparr>"
  using assms
  by (cases pc)
    (auto simp: caller_step_def q_step_def cancelDownload_def clearFailed_def pauseQueue_def
        resumeQueue_def retry_next_job
      split: if_splits option.splits qpc.splits)

lemma ownedD:
  assumes "owned s"
  shows "w < length (goroutines s) \<Longrightarrow> wpc_job (goroutines s ! w) = Some job
           \<Longrightarrow> held_only (Worker w) job s"
    and "w < length (goroutines s) \<Longrightarrow> wpc_job (goroutines s ! w) = Some job
           \<Longrightarrow> \<not> past_record (goroutines s ! w) \<Longrightarrow> unfailed job s"
    and "i < length (calls s) \<Longrightarrow> cpc_job (snd (calls s ! i)) = Some job
           \<Longrightarrow> held_only (Caller i) job s"
    and "i < length (calls s) \<Longrightarrow> cpc_job (snd (calls s ! i)) = Some job
           \<Longrightarrow> unfailed job s"
    and "distinct (queue s)"
    and "job \<in> set (queue s) \<Longrightarrow> ctx_allocated job s"
    and "job \<in> set (queue s) \<Longrightarrow> unfailed job s"
    and "job \<in> snd ` set (failedJobs s) \<Longrightarrow> ctx_allocated job s"
  using assms by (auto simp: owned_def)

lemma owned_queue_free:
  assumes "owned s" and "job \<in> set (queue s)"
  shows "v < length (goroutines s) \<Longrightarrow> wpc_job (goroutines s ! v) \<noteq> Some job"
    and "k < length (calls s) \<Longrightarrow> cpc_job (snd (calls s ! k)) \<noteq> Some job"
  using ownedD(1) [OF assms(1), of v job] ownedD(3) [OF assms(1), of k job] assms(2)
  by (auto dest: held_onlyD(1))

lemma owned_workers_step:
  assumes inv: "owned s" and st: "step a s = Next s'"
    and w: "w < length (goroutines s')" and h: "wpc_job (goroutines s' ! w) = Some job"
  shows "held_only (Worker w) job s' \<and> (\<not> past_record (goroutines s' ! w) \<longrightarrow> unfailed job s')"
proof (cases "actor a = Some (Worker w)")
  case False
  show ?thesis
  proof (cases "w < length (goroutines s)")
    case True
    from step_worker_other [OF st False True] h
    have same: "goroutines s' ! w = goroutines s ! w"
      and h0: "wpc_job (goroutines s ! w) = Some job" by simp_all
    note held = ownedD(1) [OF inv True h0]
    from held_only_other [OF held st] False have "held_only (Worker w) job s'" by simp
    moreover have "unfailed job s'" if "\<not> past_record (goroutines s' ! w)"
      using unfailed_other [OF held ownedD(2) [OF inv True h0] st] that same False by simp
    ultimately show ?thesis by blast
  next
    case False
    from step_worker_new [OF st w False] h show ?thesis by simp
  qed
next
  case True
  from step_worker_own [OF st True] obtain pc' m where w0: "w < length (goroutines s)"
    and own: "(a = W w \<and> worker_step w (goroutines s ! w) s = Next (pc', m))
               \<or> (\<exists>r e. a = Fetch w r e \<and> fetch_step r e (goroutines s ! w) s = Next (pc', m))"
    and s': "s' = m\<lparr>goroutines := (goroutines s)[w := pc']\<rparr>" "goroutines s' ! w = pc'"
    by blast
  from own show ?thesis
  proof (elim disjE conjE exE)
    assume m: "worker_step w (goroutines s ! w) s = Next (pc', m)"
    note fr = worker_step_frame [OF m]
    from worker_step_holds [OF m] h s'(2) consider
      (same) "wpc_job (goroutines s ! w) = Some job" "queue m = queue s"
        "\<not> past_record pc' \<longrightarrow>
           \<not> past_record (goroutines s ! w) \<and> snd ` set (failedJobs m) \<subseteq> snd ` set (failedJobs s)"
      | (recv) "goroutines s ! w = W_Range" "pc' = W_PauseWait job" "queue s = job # queue m"
        "failedJobs m = failedJobs s"
      by auto
    then show ?thesis
    proof cases
      case same
      note held = ownedD(1) [OF inv w0 same(1)]
      have "held_only (Worker w) job s'"
      proof (rule held_onlyI)
        show "job \<notin> set (queue s')"
          using held_onlyD(1) [OF held] same(2) s' by simp
        show "ctx_allocated job s'"
          by (rule ctx_allocated_mono [OF held_onlyD(4) [OF held]]) (use fr(4) s' in simp)
      next
        fix v assume "v < length (goroutines s')" "Worker v \<noteq> Worker w"
        with s' show "wpc_job (goroutines s' ! v) \<noteq> Some job"
          using held_onlyD(2) [OF held, of v] by simp
      next
        fix k assume "k < length (calls s')" "Caller k \<noteq> Worker w"
        with s' fr(2) show "cpc_job (snd (calls s' ! k)) \<noteq> Some job"
          using held_onlyD(3) [OF held, of k] by simp
      qed
      moreover have "unfailed job s'" if "\<not> past_record (goroutines s' ! w)"
      proof -
        from that s'(2) same(3)
        have "\<not> past_record (goroutines s ! w)"
          and sub: "snd ` set (failedJobs m) \<subseteq> snd ` set (failedJobs s)" by simp_all
        from ownedD(2) [OF inv w0 same(1) this(1)] sub s' show ?thesis
          by (auto simp: unfailed_def)
      qed
      ultimately show ?thesis by blast
    next
      case recv
      from recv(3) have inq: "job \<in> set (queue s)" by simp
      have "held_only (Worker w) job s'"
      proof (rule held_onlyI)
        show "job \<notin> set (queue s')"
          using ownedD(5) [OF inv] recv(3) s' by simp
        show "ctx_allocated job s'"
          by (rule ctx_allocated_mono [OF ownedD(6) [OF inv inq]]) (use fr(4) s' in simp)
      next
        fix v assume "v < length (goroutines s')" "Worker v \<noteq> Worker w"
        with s' show "wpc_job (goroutines s' ! v) \<noteq> Some job"
          using owned_queue_free(1) [OF inv inq, of v] by simp
      next
        fix k assume "k < length (calls s')" "Caller k \<noteq> Worker w"
        with s' fr(2) show "cpc_job (snd (calls s' ! k)) \<noteq> Some job"
          using owned_queue_free(2) [OF inv inq, of k] by simp
      qed
      moreover have "unfailed job s'"
        using ownedD(7) [OF inv inq] recv(4) s' by (simp add: unfailed_def)
      ultimately show ?thesis by blast
    qed
  next
    fix r e
    assume m: "fetch_step r e (goroutines s ! w) s = Next (pc', m)"
    from fetch_step_frame [OF m] have ms: "m = s" .
    from fetch_step_result [OF m] obtain j where j: "goroutines s ! w = P_Download j"
      "pc' = P_PostCheck j r e" by blast
    with h s'(2) have jj: "j = job" by simp
    from j jj have h0: "wpc_job (goroutines s ! w) = Some job"
      and np: "\<not> past_record (goroutines s ! w)" by simp_all
    note held = ownedD(1) [OF inv w0 h0]
    have "held_only (Worker w) job s'"
    proof (rule held_onlyI)
      fix v assume "v < length (goroutines s')" "Worker v \<noteq> Worker w"
      with s' show "wpc_job (goroutines s' ! v) \<noteq> Some job"
        using held_onlyD(2) [OF held, of v] by simp
    next
      fix k assume "k < length (calls s')" "Caller k \<noteq> Worker w"
      with s' ms show "cpc_job (snd (calls s' ! k)) \<noteq> Some job"
        using held_onlyD(3) [OF held, of k] by simp
    next
      show "ctx_allocated job s'"
        by (rule ctx_allocated_mono [OF held_onlyD(4) [OF held]]) (use ms s' in simp)
    qed (use s' ms held_onlyD(1) [OF held] in simp)
    moreover have "unfailed job s'"
      using ownedD(2) [OF inv w0 h0 np] s' ms by (simp add: unfailed_def)
    ultimately show ?thesis by blast
  qed
qed

lemma owned_callers_step:
  assumes inv: "owned s" and st: "step a s = Next s'"
    and i: "i < length (calls s')" and h: "cpc_job (snd (calls s' ! i)) = Some job"
  shows "held_only (Caller i) job s' \<and> unfailed job s'"
proof (cases "actor a = Some (Caller i)")
  case False
  show ?thesis
  proof (cases "i < length (calls s)")
    case True
    from step_caller_other [OF st False True] h
    have h0: "cpc_job (snd (calls s ! i)) = Some job" by simp
    note held = ownedD(3) [OF inv True h0]
    from held_only_other [OF held st] False
      unfailed_other [OF held ownedD(4) [OF inv True h0] st]
    show ?thesis by simp
  next
    case False
    from step_caller_new [OF st i False] h show ?thesis by (auto simp: entry_job)
  qed
next
  case True
  from step_caller_own [OF st True] obtain pc' m where i0: "i < length (calls s)"
    and own: "(a = C i \<and> caller_step i (snd (calls s ! i)) s = Next (pc', m))
               \<or> (\<exists>jobs. a = Snap i jobs \<and> snapshot_step jobs (snd (calls s ! i)) s = Next (pc', m))"
    and s': "s' = m\<lparr>calls := (calls s)[i := (fst (calls s ! i), pc')]\<rparr>"
      "calls s' ! i = (fst (calls s ! i), pc')"
    by blast
  from own show ?thesis
  proof (elim disjE conjE exE)
    fix jobs
    assume "snapshot_step jobs (snd (calls s ! i)) s = Next (pc', m)"
    from snapshot_step_jobs(2) [OF this] h s'(2) show ?thesis by simp
  next
    assume m: "caller_step i (snd (calls s ! i)) s = Next (pc', m)"
    from caller_step_holds [OF m] h s'(2)
    have c: "ctx job = Some (next_ctx s)" and ms: "m = s\<lparr>next_ctx := Suc (next_ctx s)\<rparr>"
      by simp_all
    have fresh: "j \<noteq> job" if "ctx_allocated j s" for j
      using ctx_allocated_fresh [OF that] c by auto
    have "held_only (Caller i) job s'"
    proof (rule held_onlyI)
      show "job \<notin> set (queue s')"
        using fresh ownedD(6) [OF inv] s' ms by auto
      show "ctx_allocated job s'"
        using c s' ms by (simp add: ctx_allocated_def)
    next
      fix v assume v: "v < length (goroutines s')" "Worker v \<noteq> Caller i"
      show "wpc_job (goroutines s' ! v) \<noteq> Some job"
      proof
        assume "wpc_job (goroutines s' ! v) = Some job"
        with v s' ms have "v < length (goroutines s)" "wpc_job (goroutines s ! v) = Some job"
          by simp_all
        from held_onlyD(4) [OF ownedD(1) [OF inv this]] fresh show False by blast
      qed
    next
      fix k assume k: "k < length (calls s')" "Caller k \<noteq> Caller i"
      show "cpc_job (snd (calls s' ! k)) \<noteq> Some job"
      proof
        assume "cpc_job (snd (calls s' ! k)) = Some job"
        with k s' ms have "k < length (calls s)" "cpc_job (snd (calls s ! k)) = Some job"
          by simp_all
        from held_onlyD(4) [OF ownedD(3) [OF inv this]] fresh show False by blast
      qed
    qed
    moreover have "unfailed job s'"
      using fresh ownedD(8) [OF inv] s' ms by (auto simp: unfailed_def)
    ultimately show ?thesis by blast
  qed
qed

lemma owned_queue_step:
  assumes inv: "owned s" and st: "step a s = Next s'"
  shows "distinct (queue s')"
    and "job \<in> set (queue s') \<Longrightarrow> ctx_allocated job s'"
    and "job \<in> set (queue s') \<Longrightarrow> unfailed job s'"
proof -
  note mono = step_next_ctx [OF st]
  from step_queue [OF st] consider
    (same) "queue s' = queue s"
    | (recv) v j where "a = W v" "v < length (goroutines s)" "goroutines s ! v = W_Range"
        "queue s = j # queue s'"
    | (send) i j where "a = C i" "i < length (calls s)" "cpc_job (snd (calls s ! i)) = Some j"
        "queue s' = queue s @ [j]" "failedJobs s' = failedJobs s"
    by blast
  then have "distinct (queue s') \<and> (job \<in> set (queue s') \<longrightarrow> ctx_allocated job s' \<and> unfailed job s')"
  proof cases
    case same
    have "unfailed job s'" if q: "job \<in> set (queue s)"
    proof (rule ccontr)
      assume "\<not> unfailed job s'"
      then have "job \<in> snd ` set (failedJobs s')" by (simp add: unfailed_def)
      from step_failed [OF st this] ownedD(7) [OF inv q] obtain v
        where "v < length (goroutines s)" "wpc_job (goroutines s ! v) = Some job"
        by (auto simp: unfailed_def)
      with owned_queue_free(1) [OF inv q] show False by blast
    qed
    with same ownedD(5) [OF inv] ctx_allocated_mono [OF ownedD(6) [OF inv] mono]
    show ?thesis by auto
  next
    case recv
    from recv st have f: "failedJobs s' = failedJobs s"
      by (auto simp: set_worker_def worker_step_def split: if_splits list.splits
          dest: arg_cong [where f = failedJobs])
    from recv(4) have sub: "set (queue s') \<subseteq> set (queue s)" by auto
    from ownedD(5) [OF inv] recv(4) have "distinct (queue s')" by simp
    moreover have "ctx_allocated job s' \<and> unfailed job s'" if "job \<in> set (queue s')"
      using that sub ctx_allocated_mono [OF ownedD(6) [OF inv] mono] ownedD(7) [OF inv, of job] f
      by (auto simp: unfailed_def)
    ultimately show ?thesis by blast
  next
    case send
    note held = ownedD(3) [OF inv send(2,3)]
    from ownedD(5) [OF inv] held_onlyD(1) [OF held] send(4) have "distinct (queue s')" by simp
    moreover have "ctx_allocated job s' \<and> unfailed job s'" if "job \<in> set (queue s')"
    proof -
      from that send(4) have "job \<in> set (queue s) \<or> job = j" by auto
      then have "ctx_allocated job s \<and> unfailed job s"
        using ownedD(6,7) [OF inv] held_onlyD(4) [OF held] ownedD(4) [OF inv send(2,3)] by blast
      with ctx_allocated_mono [OF _ mono] send(5) show ?thesis
        by (auto simp: unfailed_def)
    qed
    ultimately show ?thesis by blast
  qed
  then show "distinct (queue s')"
    and "job \<in> set (queue s') \<Longrightarrow> ctx_allocated job s'"
    and "job \<in> set (queue s') \<Longrightarrow> unfailed job s'" by blast+
qed

lemma owned_failed_step:
  assumes inv: "owned s" and st: "step a s = Next s'" and f: "job \<in> snd ` set (failedJobs s')"
  shows "ctx_allocated job s'"
proof -
  from step_failed [OF st f] have "ctx_allocated job s"
    using ownedD(8) [OF inv] held_onlyD(4) [OF ownedD(1) [OF inv]] by blast
  then show ?thesis by (rule ctx_allocated_mono) (rule step_next_ctx [OF st])
qed

lemma owned_step:
  assumes inv: "owned s" and st: "step a s = Next s'"
  shows "owned s'"
  unfolding owned_def
  using owned_workers_step [OF inv st] owned_callers_step [OF inv st]
    owned_queue_step [OF inv st] owned_failed_step [OF inv st]
  by blast

lemma owned_new: "owned (NewDownloadManager n)"
  by (simp add: owned_def NewDownloadManager_def)

lemma owned_init: "owned (SetProgressCallback (NewDownloadManager n))"
  by (simp add: owned_def NewDownloadManager_def SetProgressCallback_def)

lemma owned_run:
  assumes "run acts s = Next s'" and "owned s"
  shows "owned s'"
  by (rule run_invariant [where P = owned, OF assms(1)]) (auto intro: assms(2) owned_step)

text \<open>In every state the manager reaches, a worker that has not recorded its job as
  failed holds it alone.\<close>

lemma reachable_exclusive:
  assumes "run acts (SetProgressCallback (NewDownloadManager n)) = Next s"
    and "w < length (goroutines s)" and "wpc_job (goroutines s ! w) = Some job"
    and "\<not> past_record (goroutines s ! w)"
  shows "exclusive w job s"
  using ownedD(1,2) [OF owned_run [OF assms(1) owned_init] assms(2,3)] assms(4)
  by (simp add: exclusive_iff)

lemma run_onProgress:
  assumes "run acts s = Next s'" and "onProgress s"
  shows "onProgress s'"
  by (rule run_invariant [where P = onProgress, OF assms]) (simp add: step_onProgress)

lemma onProgress_init: "onProgress (SetProgressCallback (NewDownloadManager n))"
  by (simp add: SetProgressCallback_def)

subsection \<open>Cancelled at the post-fetch check\<close>

text \<open>
  C3. In every state the manager reaches, when the cancellation token of a job is
  signaled at the post-fetch check (lines 165--172), the execution of \<^verbatim>\<open>processJob\<close>
  emits \<open>cancelled\<close> as its terminal event and nothing else, whatever the Fetch
  Collaborator returned (a result or nil, an error or nil), under any interleaving with
  the other goroutines; and when \<^verbatim>\<open>processJob\<close> returns the job is not stored in the
  Failed Registry.
\<close>

theorem cancelled_after_fetch:
  assumes "run pre (SetProgressCallback (NewDownloadManager n)) = Next s"
    and "until_return w acts s = Some s'" and "w < length (goroutines s)"
    and "goroutines s ! w = P_PostCheck job result err"
    and "ctx_done job s"
  shows "emitted_by (Worker w) s s' = [Event (TrackID job) StCancelled None]
    \<and> job \<notin> snd ` set (failedJobs s')"
proof -
  from run_onProgress [OF assms(1) onProgress_init] have cb: "onProgress s" .
  from reachable_exclusive [OF assms(1,3)] assms(4) have ex: "exclusive w job s" by simp
  from ur_PostCheck [OF assms(2-4) cb] assms(5)
  have "emitted_by (Worker w) s s' = [handle_event job result err True]"
    by auto
  with cancel_PostCheck [OF assms(2-5) ex] show ?thesis
    by (simp add: handle_event_def)
qed

theorem cancelled_after_fetch_witness:
  "run sched_postcheck (SetProgressCallback (NewDownloadManager 1)) = Next st_postcheck
   \<and> until_return 0 sched_cancelled st_postcheck = Some st_cancelled
   \<and> goroutines st_postcheck ! 0 = P_PostCheck (demo_job 7 0) (Some demo_ok) None
   \<and> Success demo_ok
   \<and> ctx_done (demo_job 7 0) st_postcheck
   \<and> emitted_by (Worker 0) st_postcheck st_cancelled = [Event 7 StCancelled None]
   \<and> failedJobs st_cancelled = []"
proof -
  have rn: "run sched_postcheck (SetProgressCallback (NewDownloadManager 1)) = Next st_postcheck"
    using st_postcheck_reachable by (simp only: demo_init_def)
  have ur: "until_return 0 sched_cancelled st_postcheck = Some st_cancelled"
    by code_simp
  have w: "0 < length (goroutines st_postcheck)"
    and pc: "goroutines st_postcheck ! 0 = P_PostCheck (demo_job 7 0) (Some demo_ok) None"
    and dn: "ctx_done (demo_job 7 0) st_postcheck"
    and ok: "Success demo_ok"
    and track: "TrackID (demo_job 7 0) = 7"
    and none: "failedJobs st_cancelled = []"
    by (simp_all add: st_postcheck_def st_cancelled_def demo_defs ctx_done_def)
  from cancelled_after_fetch [OF rn ur w pc dn] track
  have "emitted_by (Worker 0) st_postcheck st_cancelled = [Event 7 StCancelled None]"
    by simp
  with rn ur pc ok dn none show ?thesis
    by blast
qed

subsection \<open>Retrying on a closed queue\<close>

text \<open>
  C4. The snapshot and the clearing are one critical section, but the call does not
  always return a count. Track 7 has failed and is in the Failed Registry. On a manager
  that was stopped and started again, \<^verbatim>\<open>RetryAllFailed\<close> empties the registry (line
  297), its \<^verbatim>\<open>QueueDownload\<close> (line 303) passes the check of \<open>running\<close> (line 209), and
  the send on the queue that \<^verbatim>\<open>Stop\<close> closed panics (line 228). The same happens when
  \<^verbatim>\<open>Stop\<close> closes the queue between the check and the send of a re-enqueue. No count
  is returned, nothing is enqueued, and the captured job is in no registry.
\<close>

theorem retryAllFailed_on_closed_queue_panics:
  "run sched_failed_restart (SetProgressCallback (NewDownloadManager 1)) = Next st_failed_restart
   \<and> IsRunning st_failed_restart \<and> GetFailedCount st_failed_restart = 1
   \<and> calls st_failed_restart ! 4 = (RetryAllFailed, RA_Snapshot)
   \<and> run [Snap 4 [demo_job 7 0], C 4, C 4] st_failed_restart = Next st_retry_lost
   \<and> GetFailedCount st_retry_lost = 0 \<and> GetQueueLength st_retry_lost = 0
   \<and> calls st_retry_lost ! 4 = (RetryAllFailed, RA_Call [] 0 (Q_Send (demo_job 7 1)))
   \<and> step (C 4) st_retry_lost = Panic SendOnClosedChannel
   \<and> run (sched_failed_restart @ [Snap 4 [demo_job 7 0], C 4, C 4, C 4])
        (SetProgressCallback (NewDownloadManager 1)) = Panic SendOnClosedChannel
   \<and> run sched_stop_mid_retry (SetProgressCallback (NewDownloadManager 1)) = Next st_stop_mid_retry
   \<and> GetFailedCount st_stop_mid_retry = 0 \<and> GetQueueLength st_stop_mid_retry = 0
   \<and> calls st_stop_mid_retry ! 2 = (RetryAllFailed, RA_Call [] 0 (Q_Send (demo_job 7 1)))
   \<and> step (C 2) st_stop_mid_retry = Panic SendOnClosedChannel
   \<and> run (sched_stop_mid_retry @ [C 2]) (SetProgressCallback (NewDownloadManager 1))
       = Panic SendOnClosedChannel"
proof -
  have reach: "run sched_failed_restart (SetProgressCallback (NewDownloadManager 1)) = Next st_failed_restart"
    by code_simp
  have snap: "run [Snap 4 [demo_job 7 0], C 4, C 4] st_failed_restart = Next st_retry_lost"
    by code_simp
  have reach2: "run sched_stop_mid_retry (SetProgressCallback (NewDownloadManager 1)) = Next st_stop_mid_retry"
    by code_simp
  have facts: "IsRunning st_failed_restart" "GetFailedCount st_failed_restart = 1"
    "calls st_failed_restart ! 4 = (RetryAllFailed, RA_Snapshot)"
    "GetFailedCount st_retry_lost = 0" "GetQueueLength st_retry_lost = 0"
    "calls st_retry_lost ! 4 = (RetryAllFailed, RA_Call [] 0 (Q_Send (demo_job 7 1)))"
    "GetFailedCount st_stop_mid_retry = 0" "GetQueueLength st_stop_mid_retry = 0"
    "calls st_stop_mid_retry ! 2 = (RetryAllFailed, RA_Call [] 0 (Q_Send (demo_job 7 1)))"
    by (simp_all add: st_failed_restart_def st_retry_lost_def st_stop_mid_retry_def demo_defs
        IsRunning_def GetFailedCount_def GetQueueLength_def)
  have panic: "step (C 4) st_retry_lost = Panic SendOnClosedChannel"
    by (simp add: st_retry_lost_def st_failed_restart_def demo_defs set_caller_def caller_step_def
        q_step_def)
  have panic2: "step (C 2) st_stop_mid_retry = Panic SendOnClosedChannel"
    by (simp add: st_stop_mid_retry_def demo_defs set_caller_def caller_step_def q_step_def)
  from reach snap panic
  have whole: "run (sched_failed_restart @ [Snap 4 [demo_job 7 0], C 4, C 4, C 4])
        (SetProgressCallback (NewDownloadManager 1)) = Panic SendOnClosedChannel"
    using run_append [of sched_failed_restart "[Snap 4 [demo_job 7 0], C 4, C 4, C 4]"
        "SetProgressCallback (NewDownloadManager 1)"]
      run_append [of "[Snap 4 [demo_job 7 0], C 4, C 4]" "[C 4]" st_failed_restart]
    by simp
  from reach2 panic2
  have whole2: "run (sched_stop_mid_retry @ [C 2]) (SetProgressCallback (NewDownloadManager 1))
       = Panic SendOnClosedChannel"
    by (simp add: run_append)
  from reach snap facts panic whole reach2 panic2 whole2 show ?thesis
    by blast
qed

subsection \<open>Who is in the Active Registry\<close>

lemma worker_step_active:
  assumes "worker_step w pc s = Next (pc', m)"
  shows "(activeJobs m = activeJobs s \<and> registered_pc pc' = registered_pc pc
          \<and> (registered_pc pc \<longrightarrow> wpc_job pc' = wpc_job pc))
    \<or> (\<exists>job. pc = P_MarkActive job \<and> pc' = P_Download job
          \<and> activeJobs m = AList.update (TrackID job) job (activeJobs s))
    \<or> (\<exists>job r e c. pc = P_RemoveActive job r e c \<and> pc' = P_Handle job r e c
          \<and> activeJobs m = AList.delete (TrackID job) (activeJobs s))"
  using assms
  by (cases pc)
    (auto simp: worker_step_def worker_exit_def track_failed_def notify_frame
      split: list.splits if_splits option.splits)

lemma caller_step_active:
  assumes "caller_step i pc s = Next (pc', s')"
  shows "activeJobs s' = activeJobs s"
  using assms
  by (auto simp: caller_step_def cancelDownload_def clearFailed_def pauseQueue_def resumeQueue_def
      dest: q_step_frame(6)
      split: cpc.splits if_splits option.splits outcome.splits qres.splits prod.splits)

lemma snapshot_step_active:
  assumes "snapshot_step jobs pc s = Next (pc', s')"
  shows "activeJobs s' = activeJobs s"
  using assms by (auto simp: snapshot_step_def split: cpc.splits if_splits)

lemma active_heldD:
  assumes "active_held s" and "(k, j) \<in> set (activeJobs s)"
  shows "k = TrackID j"
    and "\<exists>v < length (goroutines s). registered_pc (goroutines s ! v)
           \<and> wpc_job (goroutines s ! v) = Some j"
  using assms unfolding active_held_def by force+

lemma active_heldI:
  assumes "\<And>k j. (k, j) \<in> set (activeJobs s) \<Longrightarrow> k = TrackID j
             \<and> (\<exists>v < length (goroutines s). registered_pc (goroutines s ! v)
                   \<and> wpc_job (goroutines s ! v) = Some j)"
  shows "active_held s"
  using assms by (auto simp: active_held_def)

lemma alist_update_entry:
  "(a, j) \<in> set (AList.update k v al) \<Longrightarrow> (a = k \<and> j = v) \<or> (a, j) \<in> set al"
  by (induction al) (auto split: if_splits)

lemma alist_delete_entry:
  "(a, j) \<in> set (AList.delete k al) \<Longrightarrow> (a, j) \<in> set al \<and> a \<noteq> k"
  by (auto simp: AList.delete_eq)

lemma active_held_step:
  assumes inv: "active_held s" and st: "step a s = Next s'"
  shows "active_held s'"
proof (rule active_heldI)
  fix k j assume in': "(k, j) \<in> set (activeJobs s')"
  let ?goal = "k = TrackID j
             \<and> (\<exists>v < length (goroutines s'). registered_pc (goroutines s' ! v)
                   \<and> wpc_job (goroutines s' ! v) = Some j)"
  have keep: ?goal
    if old: "(k, j) \<in> set (activeJobs s)"
      and same: "\<And>v. v < length (goroutines s) \<Longrightarrow> registered_pc (goroutines s ! v)
             \<Longrightarrow> wpc_job (goroutines s ! v) = Some j
             \<Longrightarrow> v < length (goroutines s') \<and> registered_pc (goroutines s' ! v)
                   \<and> wpc_job (goroutines s' ! v) = Some j"
  proof -
    from active_heldD [OF inv old] obtain v where "k = TrackID j" "v < length (goroutines s)"
      "registered_pc (goroutines s ! v)" "wpc_job (goroutines s ! v) = Some j" by blast
    with same [of v] show ?thesis by blast
  qed
  show ?goal
  proof (cases a)
    case (Invoke c)
    with st in' show ?thesis by (intro keep) auto
  next
    case (C i)
    with st obtain pc' m where m: "caller_step i (snd (calls s ! i)) s = Next (pc', m)"
      and s': "s' = m\<lparr>calls := (calls m)[i := (fst (calls m ! i), pc')]\<rparr>"
      by (auto simp: set_caller_def split: if_splits outcome.splits prod.splits)
    from caller_step_frame(6) [OF m] obtain n
      where g: "goroutines m = goroutines s @ replicate n W_Range" by blast
    from in' s' caller_step_active [OF m] have "(k, j) \<in> set (activeJobs s)" by simp
    then show ?thesis
      using s' g by (intro keep) (auto simp: nth_append)
  next
    case (Snap i jobs)
    with st obtain pc' m where m: "snapshot_step jobs (snd (calls s ! i)) s = Next (pc', m)"
      and s': "s' = m\<lparr>calls := (calls m)[i := (fst (calls m ! i), pc')]\<rparr>"
      by (auto simp: set_caller_def split: if_splits outcome.splits prod.splits)
    from in' s' snapshot_step_active [OF m] have "(k, j) \<in> set (activeJobs s)" by simp
    then show ?thesis
      using s' snapshot_step_frame(4) [OF m] by (intro keep) auto
  next
    case (Fetch w r e)
    with st obtain pc' m where w: "w < length (goroutines s)"
      and m: "fetch_step r e (goroutines s ! w) s = Next (pc', m)"
      and s': "s' = m\<lparr>goroutines := (goroutines m)[w := pc']\<rparr>"
      by (auto simp: set_worker_def split: if_splits outcome.splits prod.splits)
    from fetch_step_frame [OF m] have ms: "m = s" .
    from fetch_step_result [OF m] obtain job where pc: "goroutines s ! w = P_Download job"
      "pc' = P_PostCheck job r e" by blast
    from in' s' ms have "(k, j) \<in> set (activeJobs s)" by simp
    then show ?thesis
    proof (rule keep)
      fix v assume "v < length (goroutines s)" "registered_pc (goroutines s ! v)"
        "wpc_job (goroutines s ! v) = Some j"
      with s' ms pc w show "v < length (goroutines s') \<and> registered_pc (goroutines s' ! v)
                   \<and> wpc_job (goroutines s' ! v) = Some j"
        by (cases "v = w") auto
    qed
  next
    case (W w)
    with st obtain pc' m where w: "w < length (goroutines s)"
      and m: "worker_step w (goroutines s ! w) s = Next (pc', m)"
      and s': "s' = m\<lparr>goroutines := (goroutines m)[w := pc']\<rparr>"
      by (auto simp: set_worker_def split: if_splits outcome.splits prod.splits)
    note g = worker_step_frame(1) [OF m]
    from worker_step_active [OF m] consider
      (same) "activeJobs m = activeJobs s" "registered_pc pc' = registered_pc (goroutines s ! w)"
        "registered_pc (goroutines s ! w) \<longrightarrow> wpc_job pc' = wpc_job (goroutines s ! w)"
      | (ins) job where "goroutines s ! w = P_MarkActive job" "pc' = P_Download job"
        "activeJobs m = AList.update (TrackID job) job (activeJobs s)"
      | (del) job r e c where "goroutines s ! w = P_RemoveActive job r e c"
        "pc' = P_Handle job r e c"
        "activeJobs m = AList.delete (TrackID job) (activeJobs s)"
      by blast
    then show ?thesis
    proof cases
      case same
      from in' s' same(1) have "(k, j) \<in> set (activeJobs s)" by simp
      then show ?thesis
      proof (rule keep)
        fix v assume "v < length (goroutines s)" "registered_pc (goroutines s ! v)"
          "wpc_job (goroutines s ! v) = Some j"
        with s' g same(2,3) w show "v < length (goroutines s') \<and> registered_pc (goroutines s' ! v)
                   \<and> wpc_job (goroutines s' ! v) = Some j"
          by (cases "v = w") auto
      qed
    next
      case ins
      from in' s' ins(3) have "(k, j) \<in> set (AList.update (TrackID job) job (activeJobs s))"
        by simp
      from alist_update_entry [OF this]
      show ?thesis
      proof
        assume "k = TrackID job \<and> j = job"
        with s' g w ins(2) show ?thesis
          by (auto intro!: exI [of _ w])
      next
        assume "(k, j) \<in> set (activeJobs s)"
        then show ?thesis
        proof (rule keep)
          fix v assume "v < length (goroutines s)" "registered_pc (goroutines s ! v)"
            "wpc_job (goroutines s ! v) = Some j"
          with s' g ins(1) w show "v < length (goroutines s') \<and> registered_pc (goroutines s' ! v)
                   \<and> wpc_job (goroutines s' ! v) = Some j"
            by (cases "v = w") auto
        qed
      qed
    next
      case del
      from in' s' del(3) have "(k, j) \<in> set (AList.delete (TrackID job) (activeJobs s))"
        by simp
      from alist_delete_entry [OF this]
      have old: "(k, j) \<in> set (activeJobs s)" and ne: "k \<noteq> TrackID job" by simp_all
      from active_heldD(1) [OF inv old] ne have jj: "j \<noteq> job" by auto
      from old show ?thesis
      proof (rule keep)
        fix v assume "v < length (goroutines s)" "registered_pc (goroutines s ! v)"
          "wpc_job (goroutines s ! v) = Some j"
        with s' g del(1) jj w show "v < length (goroutines s') \<and> registered_pc (goroutines s' ! v)
                   \<and> wpc_job (goroutines s' ! v) = Some j"
          by (cases "v = w") auto
      qed
    qed
  qed
qed

lemma active_held_init: "active_held (SetProgressCallback (NewDownloadManager n))"
  by (simp add: active_held_def SetProgressCallback_def NewDownloadManager_def)

lemma active_held_run:
  assumes "run acts s = Next s'" and "active_held s"
  shows "active_held s'"
  by (rule run_invariant [where P = active_held, OF assms]) (rule active_held_step)

text \<open>In every state the manager reaches, the job of a worker that stands before the
  lines 155--159 is not in the Active Registry.\<close>

lemma reachable_unregistered:
  assumes "run acts (SetProgressCallback (NewDownloadManager n)) = Next s"
    and "w < length (goroutines s)" and "goroutines s ! w = P_MarkActive job"
  shows "job \<notin> snd ` set (activeJobs s)"
proof
  assume "job \<in> snd ` set (activeJobs s)"
  then obtain k where "(k, job) \<in> set (activeJobs s)" by force
  from active_heldD(2) [OF active_held_run [OF assms(1) active_held_init] this]
  obtain v where v: "v < length (goroutines s)" "registered_pc (goroutines s ! v)"
    "wpc_job (goroutines s ! v) = Some job" by blast
  from assms(3) have "wpc_job (goroutines s ! w) = Some job" by simp
  from ownedD(1) [OF owned_run [OF assms(1) owned_init] assms(2) this]
  have "held_only (Worker w) job s" .
  from held_onlyD(2) [OF this v(1)] v(3) have "v = w" by auto
  with v(2) assms(3) show False by simp
qed

lemma length_update_old: "map_of al k \<noteq> None \<Longrightarrow> length (AList.update k v al) = length al"
  by (induction al) auto

subsection \<open>\<open>downloading\<close> comes before the Active Registry\<close>

text \<open>
  C10, as amended. A worker emits \<open>downloading\<close> for its job (lines 150--152) strictly
  before it inserts the job into the Active Registry (lines 155--159): in every state
  the manager reaches in which a worker stands between the two, the last thing the
  worker has told the listener is \<open>downloading\<close> for that job, and the job is not in
  the Active Registry. In that window \<^verbatim>\<open>CancelDownload\<close> for the id of the job answers
  \<open>JobNotActive\<close> exactly when no job is registered under that id; a job registered
  under it is another job with the same id, and then \<^verbatim>\<open>CancelDownload\<close> returns no
  error. The next step
  of the worker registers the job, and \<^verbatim>\<open>GetActiveCount\<close> goes up by one exactly when
  no job was registered under the id; otherwise the entry of the other job is
  overwritten and the count stays.
\<close>

theorem downloading_before_active:
  assumes "run acts (SetProgressCallback (NewDownloadManager n)) = Next s"
    and "w < length (goroutines s)" and "goroutines s ! w = P_MarkActive job"
  shows "(\<exists>pre. events_of (Worker w) s = pre @ [Event (TrackID job) StDownloading None])
    \<and> job \<notin> snd ` set (activeJobs s)
    \<and> (snd (cancelDownload (TrackID job) s) = Some (JobNotActive (TrackID job))
          \<longleftrightarrow> map_of (activeJobs s) (TrackID job) = None)
    \<and> (\<forall>j. map_of (activeJobs s) (TrackID job) = Some j
          \<longrightarrow> j \<noteq> job \<and> TrackID j = TrackID job
              \<and> snd (cancelDownload (TrackID job) s) = None)
    \<and> (\<exists>s'. step (W w) s = Next s' \<and> log s' = log s
          \<and> map_of (activeJobs s') (TrackID job) = Some job
          \<and> GetActiveCount s' = (if map_of (activeJobs s) (TrackID job) = None
                                   then Suc (GetActiveCount s) else GetActiveCount s))"
proof -
  have "told_downloading s"
    by (rule run_invariant [OF assms(1)]) (auto intro: told_downloading_init told_downloading_step)
  with assms(2,3) have told: "\<exists>pre. events_of (Worker w) s = pre @ [Event (TrackID job) StDownloading None]"
    by (auto simp: told_downloading_def)
  note out = reachable_unregistered [OF assms]
  have iff: "snd (cancelDownload (TrackID job) s) = Some (JobNotActive (TrackID job))
          \<longleftrightarrow> map_of (activeJobs s) (TrackID job) = None"
    by (auto simp: cancelDownload_def split: option.splits)
  have other: "j \<noteq> job \<and> TrackID j = TrackID job
      \<and> snd (cancelDownload (TrackID job) s) = None"
    if "map_of (activeJobs s) (TrackID job) = Some j" for j
  proof -
    note entry = map_of_SomeD [OF that]
    then have "j \<in> snd ` set (activeJobs s)" by force
    with out have "j \<noteq> job" by auto
    moreover from active_heldD(1) [OF active_held_run [OF assms(1) active_held_init] entry]
    have "TrackID j = TrackID job" by simp
    ultimately show ?thesis
      using that by (simp add: cancelDownload_def split: option.splits)
  qed
  from assms(2,3) have nxt: "\<exists>s'. step (W w) s = Next s' \<and> log s' = log s
          \<and> map_of (activeJobs s') (TrackID job) = Some job
          \<and> GetActiveCount s' = (if map_of (activeJobs s) (TrackID job) = None
                                   then Suc (GetActiveCount s) else GetActiveCount s)"
    by (simp add: worker_step_def set_worker_def GetActiveCount_def update_conv'
        length_update_new length_update_old)
  from told out iff other nxt show ?thesis by blast
qed

theorem downloading_before_active_witness:
  "run sched_window (SetProgressCallback (NewDownloadManager 1)) = Next st_window
   \<and> goroutines st_window ! 0 = P_MarkActive (demo_job 7 0)
   \<and> events_of (Worker 0) st_window = [Event 7 StDownloading None]
   \<and> activeJobs st_window = []
   \<and> GetActiveCount st_window = 0
   \<and> snd (cancelDownload 7 st_window) = Some (JobNotActive 7)
   \<and> step (W 0) st_window
       = Next (st_window\<lparr>activeJobs := [(7, demo_job 7 0)], goroutines := [P_Download (demo_job 7 0)]\<rparr>)
   \<and> run sched_same_id (SetProgressCallback (NewDownloadManager 2)) = Next st_same_id
   \<and> goroutines st_same_id ! 1 = P_MarkActive (demo_job 7 1)
   \<and> map_of (activeJobs st_same_id) 7 = Some (demo_job 7 0)
   \<and> demo_job 7 0 \<noteq> demo_job 7 1
   \<and> snd (cancelDownload 7 st_same_id) = None"
proof -
  have reach: "run sched_window (SetProgressCallback (NewDownloadManager 1)) = Next st_window"
    by code_simp
  have reach2: "run sched_same_id (SetProgressCallback (NewDownloadManager 2)) = Next st_same_id"
    by code_simp
  have w: "0 < length (goroutines st_window)"
    and pc: "goroutines st_window ! 0 = P_MarkActive (demo_job 7 0)"
    and ev: "events_of (Worker 0) st_window = [Event 7 StDownloading None]"
    and none: "map_of (activeJobs st_window) (TrackID (demo_job 7 0)) = None"
    and empty: "activeJobs st_window = []"
    and cnt: "GetActiveCount st_window = 0"
    and track: "TrackID (demo_job 7 0) = 7" "TrackID (demo_job 7 1) = 7"
    and nxt: "step (W 0) st_window
       = Next (st_window\<lparr>activeJobs := [(7, demo_job 7 0)], goroutines := [P_Download (demo_job 7 0)]\<rparr>)"
    by (simp_all add: st_window_def demo_defs events_of_def GetActiveCount_def
        worker_step_def set_worker_def)
  have w2: "1 < length (goroutines st_same_id)"
    and pc2: "goroutines st_same_id ! 1 = P_MarkActive (demo_job 7 1)"
    and reg: "map_of (activeJobs st_same_id) (TrackID (demo_job 7 1)) = Some (demo_job 7 0)"
    by (simp_all add: st_same_id_def demo_defs)
  from downloading_before_active [OF reach w pc] none track
  have c1: "snd (cancelDownload 7 st_window) = Some (JobNotActive 7)"
    by simp
  from downloading_before_active [OF reach2 w2 pc2] reg
  have "demo_job 7 0 \<noteq> demo_job 7 1 \<and> snd (cancelDownload (TrackID (demo_job 7 1)) st_same_id) = None"
    by blast
  with track have c2: "demo_job 7 0 \<noteq> demo_job 7 1" "snd (cancelDownload 7 st_same_id) = None"
    by simp_all
  from reg track have reg': "map_of (activeJobs st_same_id) 7 = Some (demo_job 7 0)" by simp
  from reach pc ev empty cnt c1 nxt reach2 pc2 reg' c2 show ?thesis
    by blast
qed

text \<open>
  C10 as stated fails when two jobs have the same id. Two calls enqueue track 7; worker
  0 is inside the fetch of the first job, and worker 1 has announced \<open>downloading\<close> for
  the second and stands before line 155. \<^verbatim>\<open>CancelDownload(7)\<close> returns no error (it
  cancels the first job), and when worker 1 registers its job the count stays 1.
\<close>

theorem cancel_in_window_same_id_counterexample:
  "run sched_same_id (SetProgressCallback (NewDownloadManager 2)) = Next st_same_id
   \<and> goroutines st_same_id ! 1 = P_MarkActive (demo_job 7 1)
   \<and> events_of (Worker 1) st_same_id = [Event 7 StDownloading None]
   \<and> activeJobs st_same_id = [(7, demo_job 7 0)]
   \<and> cancelDownload 7 st_same_id = (st_same_id\<lparr>ctx_cancelled := {0}\<rparr>, None)
   \<and> GetActiveCount st_same_id = 1
   \<and> step (W 1) st_same_id
       = Next (st_same_id\<lparr>activeJobs := [(7, demo_job 7 1)],
                 goroutines := [P_Download (demo_job 7 0), P_Download (demo_job 7 1)]\<rparr>)
   \<and> GetActiveCount (st_same_id\<lparr>activeJobs := [(7, demo_job 7 1)],
                 goroutines := [P_Download (demo_job 7 0), P_Download (demo_job 7 1)]\<rparr>) = 1"
proof -
  have "run sched_same_id (SetProgressCallback (NewDownloadManager 2)) = Next st_same_id"
    by code_simp
  then show ?thesis
    by (simp add: st_same_id_def demo_defs events_of_def GetActiveCount_def cancelDownload_def
        worker_step_def set_worker_def)
qed

subsection \<open>A retried id leaves the Failed Registry when its job is executed\<close>

lemma cleared_in_processJob: "cleared_pc pc \<Longrightarrow> in_processJob pc"
  by (cases pc) auto

lemma worker_step_cleared:
  assumes "worker_step w pc s = Next (pc', m)" and "wpc_job pc = Some job"
    and "pc = P_MarkActive job \<or> (cleared_pc pc \<and> map_of (failedJobs s) (TrackID job) = None)"
  shows "(wpc_job pc' = Some job \<and> cleared_pc pc' \<and> map_of (failedJobs m) (TrackID job) = None)
    \<or> (\<exists>r e c. pc' = P_NotifyError job r e c)
    \<or> (pc' = W_Range \<and> map_of (failedJobs m) (TrackID job) = None)"
  using assms
  by (cases pc)
    (auto simp: worker_step_def track_failed_def notify_frame handle_event_def delete_conv'
      split: if_splits option.splits)

lemma id_clear:
  assumes "until_return w acts s = Some s'" and "w < length (goroutines s)" and "onProgress s"
    and "undisturbed w (TrackID job) acts s"
    and "wpc_job (goroutines s ! w) = Some job"
    and "goroutines s ! w = P_MarkActive job
           \<or> (cleared_pc (goroutines s ! w) \<and> map_of (failedJobs s) (TrackID job) = None)"
    and "\<forall>e \<in> set (emitted_by (Worker w) s s'). event_status e \<noteq> StError"
  shows "map_of (failedJobs s') (TrackID job) = None"
  using assms
proof (induction acts arbitrary: s)
  case Nil
  then show ?case by simp
next
  case (Cons a as)
  from until_return_Cons [OF Cons.prems(1)] obtain sa where
    st: "step a s = Next sa"
    and rest: "if w < length (goroutines sa) \<and> in_processJob (goroutines sa ! w)
     then until_return w as sa = Some s' else as = [] \<and> sa = s'"
    by blast
  from step_log [OF st] obtain d where d: "log sa = log s @ d" by blast
  have "\<exists>d'. log s' = log sa @ d'"
    using rest until_return_log by (auto split: if_splits)
  then obtain d' where d': "log s' = log sa @ d'" by blast
  note split = emitted_by_trans [OF d d', of "Worker w"]
  with Cons.prems(7)
  have quiet: "\<forall>e \<in> set (emitted_by (Worker w) sa s'). event_status e \<noteq> StError" by simp
  from step_onProgress [OF st] Cons.prems(3) have cb: "onProgress sa" by simp
  from Cons.prems(4) st have und: "undisturbed w (TrackID job) as sa"
    and keep: "actor a \<noteq> Some (Worker w) \<Longrightarrow> map_of (failedJobs s) (TrackID job) = None
                 \<Longrightarrow> map_of (failedJobs sa) (TrackID job) = None"
    by (simp_all split: if_splits)
  from Cons.prems(6) have inp: "in_processJob (goroutines s ! w)"
    by (auto dest: cleared_in_processJob)
  show ?case
  proof (cases "actor a = Some (Worker w)")
    case False
    from step_worker_other [OF st False Cons.prems(2)]
    have same: "w < length (goroutines sa)" "goroutines sa ! w = goroutines s ! w" by simp_all
    with inp rest have ur: "until_return w as sa = Some s'" by simp
    from Cons.prems(6) keep [OF False] same(2)
    have "goroutines sa ! w = P_MarkActive job
           \<or> (cleared_pc (goroutines sa ! w) \<and> map_of (failedJobs sa) (TrackID job) = None)"
      by auto
    with Cons.IH [OF ur same(1) cb und _ _ quiet] same(2) Cons.prems(5) show ?thesis by simp
  next
    case True
    show ?thesis
    proof (cases "\<exists>j. goroutines s ! w = P_Download j")
      case True
      with Cons.prems(5) have pc: "goroutines s ! w = P_Download job" by auto
      from step_worker_own_Fetch [OF st \<open>actor a = Some (Worker w)\<close> pc] obtain r e
        where sa: "sa = s\<lparr>goroutines := (goroutines s)[w := P_PostCheck job r e]\<rparr>" by blast
      with Cons.prems(2) rest have ur: "until_return w as sa = Some s'" by simp
      from sa Cons.prems(2,6) pc
      have "w < length (goroutines sa)" "wpc_job (goroutines sa ! w) = Some job"
        "cleared_pc (goroutines sa ! w) \<and> map_of (failedJobs sa) (TrackID job) = None"
        by simp_all
      with Cons.IH [OF ur _ cb und _ _ quiet] show ?thesis by blast
    next
      case False
      then have "\<And>j. goroutines s ! w \<noteq> P_Download j" by blast
      from step_worker_own_W [OF st \<open>actor a = Some (Worker w)\<close> this] obtain pc' m where
        m: "worker_step w (goroutines s ! w) s = Next (pc', m)"
        and sa: "sa = m\<lparr>goroutines := (goroutines s)[w := pc']\<rparr>"
        by blast
      from sa Cons.prems(2) have at: "w < length (goroutines sa)" "goroutines sa ! w = pc'"
        "failedJobs sa = failedJobs m" by simp_all
      from worker_step_cleared [OF m Cons.prems(5,6)] consider
        (go) "wpc_job pc' = Some job" "cleared_pc pc'" "map_of (failedJobs m) (TrackID job) = None"
        | (err) r e c where "pc' = P_NotifyError job r e c"
        | (ret) "pc' = W_Range" "map_of (failedJobs m) (TrackID job) = None"
        by auto
      then show ?thesis
      proof cases
        case go
        with at rest have ur: "until_return w as sa = Some s'"
          by (auto dest: cleared_in_processJob)
        from go at Cons.IH [OF ur at(1) cb und _ _ quiet] show ?thesis by simp
      next
        case err
        with at rest have ur: "until_return w as sa = Some s'" by simp
        from ur_NotifyError [OF ur at(1) _ cb] at(2) err
        have "emitted_by (Worker w) sa s' = [Event (TrackID job) StError r]" by simp
        with quiet show ?thesis by simp
      next
        case ret
        with at rest show ?thesis by simp
      qed
    qed
  qed
qed

text \<open>Only a worker that records a failed job of the same id puts an entry for an id
  into a Failed Registry that has none.\<close>

lemma step_failed_key:
  assumes "step a s = Next s'" and "map_of (failedJobs s) k = None"
    and "map_of (failedJobs s') k \<noteq> None"
  shows "\<exists>v j r e. a = W v \<and> v < length (goroutines s)
           \<and> goroutines s ! v = P_Handle j r e False \<and> TrackID j = k"
proof (cases a)
  case (C i)
  with assms(1) obtain pc' m where m: "caller_step i (snd (calls s ! i)) s = Next (pc', m)"
    and s': "s' = m\<lparr>calls := (calls m)[i := (fst (calls m ! i), pc')]\<rparr>"
    by (auto simp: set_caller_def split: if_splits outcome.splits)
  from m have "failedJobs m = failedJobs s \<or> failedJobs m = []"
    by (auto simp: caller_step_def cancelDownload_def clearFailed_def pauseQueue_def
        resumeQueue_def
        dest: q_step_frame(5)
        split: cpc.splits if_splits option.splits outcome.splits qres.splits prod.splits)
  with assms(2,3) s' show ?thesis by auto
next
  case (W v)
  with assms(1) obtain pc' m where v: "v < length (goroutines s)"
    and m: "worker_step v (goroutines s ! v) s = Next (pc', m)"
    and s': "s' = m\<lparr>goroutines := (goroutines m)[v := pc']\<rparr>"
    by (auto simp: set_worker_def split: if_splits outcome.splits)
  from assms(3) s' have "map_of (failedJobs m) k \<noteq> None" by simp
  with m assms(2) have "\<exists>j r e. goroutines s ! v = P_Handle j r e False \<and> TrackID j = k"
    by (cases "goroutines s ! v")
      (auto simp: worker_step_def worker_exit_def track_failed_def notify_frame
        delete_conv' update_conv'
        split: list.splits if_splits option.splits)
  with W v show ?thesis by auto
next
  case (Fetch v r e)
  with assms(1) obtain pc' where "s' = s\<lparr>goroutines := (goroutines s)[v := pc']\<rparr>"
    by (auto simp: set_worker_def dest: fetch_step_frame split: if_splits outcome.splits)
  with assms(2,3) show ?thesis by simp
qed (use assms in \<open>auto simp: set_caller_def dest: snapshot_step_jobs(4)
      split: if_splits outcome.splits\<close>)

text \<open>
  C2, as amended. \<^verbatim>\<open>QueueDownload\<close> never changes the Failed Registry, so a
  re-enqueue itself, also one that returns without error, leaves the entry of that id in
  place and counted by \<^verbatim>\<open>GetFailedCount\<close>. The worker removes the entry when it
  starts executing the re-enqueued job, in the critical section that inserts the job
  into the Active Registry (lines 155--159). From there to the return of \<^verbatim>\<open>processJob\<close>, in every state the manager
  reaches and under any interleaving, the worker emits one terminal event, and when
  that event is not \<open>error\<close> the Failed Registry does not hold the job at the return;
  it holds no entry for the id either, when no step of another goroutine has put one
  there in the meantime. Only a worker that records a failed job of the same id puts an
  entry for the id into a registry that has none. When no other goroutine moves and the
  fetch succeeds, the worker emits \<open>completed\<close> and the registry holds no entry for the
  id.
\<close>

theorem failed_entry_removed_at_execution:
  assumes "run pre (SetProgressCallback (NewDownloadManager n)) = Next s"
    and "w < length (goroutines s)" and "goroutines s ! w = P_MarkActive job"
  shows "(\<forall>i q t r t'. q_step i q t = Next (r, t')
            \<longrightarrow> failedJobs t' = failedJobs t \<and> GetFailedCount t' = GetFailedCount t)
    \<and> step (W w) s = Next (s\<lparr> activeJobs := AList.update (TrackID job) job (activeJobs s),
                               failedJobs := AList.delete (TrackID job) (failedJobs s),
                               goroutines := (goroutines s)[w := P_Download job] \<rparr>)
    \<and> map_of (AList.delete (TrackID job) (failedJobs s)) (TrackID job) = None
    \<and> (\<forall>acts s'. until_return w acts s = Some s' \<longrightarrow>
          (\<exists>r e c. emitted_by (Worker w) s s' = [handle_event job r e c]
             \<and> (event_status (handle_event job r e c) \<noteq> StError
                  \<longrightarrow> job \<notin> snd ` set (failedJobs s')
                      \<and> (undisturbed w (TrackID job) acts s
                            \<longrightarrow> map_of (failedJobs s') (TrackID job) = None))))
    \<and> (\<forall>a t t'. step a t = Next t' \<and> map_of (failedJobs t) (TrackID job) = None
            \<and> map_of (failedJobs t') (TrackID job) \<noteq> None
          \<longrightarrow> (\<exists>v j r e. a = W v \<and> v < length (goroutines t)
                  \<and> goroutines t ! v = P_Handle j r e False \<and> TrackID j = TrackID job))
    \<and> (\<forall>r::DownloadResult. Success r \<and> \<not> ctx_done job s \<longrightarrow>
          (\<exists>s'. until_return w [W w, Fetch w (Some r) None, W w, W w, W w, W w] s = Some s'
             \<and> emitted_by (Worker w) s s' = [Event (TrackID job) StCompleted (Some r)]
             \<and> map_of (failedJobs s') (TrackID job) = None))"
proof (intro conjI allI impI)
  fix i q t r t'
  assume "q_step i q t = Next (r, t')"
  from q_step_frame(5) [OF this]
  show "failedJobs t' = failedJobs t" and "GetFailedCount t' = GetFailedCount t"
    by (simp_all add: GetFailedCount_def)
next
  show "step (W w) s = Next (s\<lparr> activeJobs := AList.update (TrackID job) job (activeJobs s),
                               failedJobs := AList.delete (TrackID job) (failedJobs s),
                               goroutines := (goroutines s)[w := P_Download job] \<rparr>)"
    using assms(2,3) by (simp add: set_worker_def worker_step_def)
next
  show "map_of (AList.delete (TrackID job) (failedJobs s)) (TrackID job) = None"
    by (simp add: delete_conv')
next
  fix acts s'
  assume ur: "until_return w acts s = Some s'"
  from run_onProgress [OF assms(1) onProgress_init] have cb: "onProgress s" .
  from reachable_exclusive [OF assms(1,2)] assms(3) have ex: "exclusive w job s" by simp
  from quiet_MarkActive [OF ur assms(2,3) cb ex] obtain r e c where
    em: "emitted_by (Worker w) s s' = [handle_event job r e c]"
    and out: "event_status (handle_event job r e c) \<noteq> StError
                \<longrightarrow> job \<notin> snd ` set (failedJobs s')"
    by blast
  have "map_of (failedJobs s') (TrackID job) = None"
    if "event_status (handle_event job r e c) \<noteq> StError" "undisturbed w (TrackID job) acts s"
  proof (rule id_clear [OF ur assms(2) cb that(2)])
    show "wpc_job (goroutines s ! w) = Some job" using assms(3) by simp
    show "goroutines s ! w = P_MarkActive job
           \<or> (cleared_pc (goroutines s ! w) \<and> map_of (failedJobs s) (TrackID job) = None)"
      using assms(3) by simp
    show "\<forall>e \<in> set (emitted_by (Worker w) s s'). event_status e \<noteq> StError"
      using em that(1) by simp
  qed
  with em out
  show "\<exists>r e c. emitted_by (Worker w) s s' = [handle_event job r e c]
             \<and> (event_status (handle_event job r e c) \<noteq> StError
                  \<longrightarrow> job \<notin> snd ` set (failedJobs s')
                      \<and> (undisturbed w (TrackID job) acts s
                            \<longrightarrow> map_of (failedJobs s') (TrackID job) = None))"
    by blast
next
  fix a t t'
  assume "step a t = Next t' \<and> map_of (failedJobs t) (TrackID job) = None
            \<and> map_of (failedJobs t') (TrackID job) \<noteq> None"
  then show "\<exists>v j r e. a = W v \<and> v < length (goroutines t)
                  \<and> goroutines t ! v = P_Handle j r e False \<and> TrackID j = TrackID job"
    using step_failed_key [of a t t' "TrackID job"] by blast
next
  fix r :: DownloadResult
  assume "Success r \<and> \<not> ctx_done job s"
  with mark_active_solo [OF assms(2,3) run_onProgress [OF assms(1) onProgress_init], of r]
  show "\<exists>s'. until_return w [W w, Fetch w (Some r) None, W w, W w, W w, W w] s = Some s'
             \<and> emitted_by (Worker w) s s' = [Event (TrackID job) StCompleted (Some r)]
             \<and> map_of (failedJobs s') (TrackID job) = None"
    by (simp add: emitted_by_def delete_conv')
qed


theorem failed_entry_removed_at_execution_witness:
  "run (sched_requeue @ [W 0, W 0, W 0, W 0, W 0]) (SetProgressCallback (NewDownloadManager 2))
     = Next st_retry_mark
   \<and> goroutines st_retry_mark ! 0 = P_MarkActive (demo_job 7 1)
   \<and> map_of (failedJobs st_retry_mark) 7 = Some (demo_job 7 0)
   \<and> until_return 0 sched_retry_paused st_retry_mark = Some st_retry_paused
   \<and> undisturbed 0 7 sched_retry_paused st_retry_mark
   \<and> emitted_by (Worker 0) st_retry_mark st_retry_paused = [Event 7 StCompleted (Some demo_ok)]
   \<and> demo_job 7 1 \<notin> snd ` set (failedJobs st_retry_paused)
   \<and> map_of (failedJobs st_retry_paused) 7 = None
   \<and> Success demo_ok \<and> \<not> ctx_done (demo_job 7 1) st_retry_mark
   \<and> until_return 0 [W 0, Fetch 0 (Some demo_ok) None, W 0, W 0, W 0, W 0] st_retry_mark
       = Some st_retry_done
   \<and> failedJobs st_retry_done = []
   \<and> q_step 2 (Q_Notify 7) st_retry_mark
       = Next (Q_Done None, st_retry_mark\<lparr>log := log st_retry_mark @ [(Caller 2, Event 7 StQueued None)]\<rparr>)
   \<and> GetFailedCount (st_retry_mark\<lparr>log := log st_retry_mark @ [(Caller 2, Event 7 StQueued None)]\<rparr>)
       = GetFailedCount st_retry_mark"
proof -
  note rn = st_retry_mark_reachable
  have w: "0 < length (goroutines st_retry_mark)"
    and pc: "goroutines st_retry_mark ! 0 = P_MarkActive (demo_job 7 1)"
    and cb: "onProgress st_retry_mark"
    and old: "map_of (failedJobs st_retry_mark) 7 = Some (demo_job 7 0)"
    and ok: "Success demo_ok"
    and nd: "\<not> ctx_done (demo_job 7 1) st_retry_mark"
    and none: "failedJobs st_retry_done = []"
    and track: "TrackID (demo_job 7 1) = 7"
    and em: "emitted_by (Worker 0) st_retry_mark st_retry_paused = [Event 7 StCompleted (Some demo_ok)]"
    by (simp_all add: st_retry_mark_def st_retry_done_def st_retry_paused_def st_requeued_def
        demo_defs ctx_done_def emitted_by_def)
  have ur: "until_return 0 [W 0, Fetch 0 (Some demo_ok) None, W 0, W 0, W 0, W 0] st_retry_mark
       = Some st_retry_done"
    by code_simp
  have ur2: "until_return 0 sched_retry_paused st_retry_mark = Some st_retry_paused"
    by code_simp
  have und: "undisturbed 0 7 sched_retry_paused st_retry_mark"
    by code_simp
  have q: "q_step 2 (Q_Notify 7) st_retry_mark
       = Next (Q_Done None, st_retry_mark\<lparr>log := log st_retry_mark @ [(Caller 2, Event 7 StQueued None)]\<rparr>)"
    using cb by (simp add: q_step_def notify_def)
  note inst = failed_entry_removed_at_execution [OF rn w pc]
  note frame = inst [THEN conjunct1, rule_format, OF q]
  note exec = inst [THEN conjunct2, THEN conjunct2, THEN conjunct2, THEN conjunct1,
      rule_format, OF ur2]
  from frame have cnt: "GetFailedCount (st_retry_mark\<lparr>log := log st_retry_mark @ [(Caller 2, Event 7 StQueued None)]\<rparr>)
       = GetFailedCount st_retry_mark"
    by (rule conjunct2)
  from exec obtain r e c where
    one: "emitted_by (Worker 0) st_retry_mark st_retry_paused = [handle_event (demo_job 7 1) r e c]"
    and imp: "event_status (handle_event (demo_job 7 1) r e c) \<noteq> StError
                \<longrightarrow> demo_job 7 1 \<notin> snd ` set (failedJobs st_retry_paused)
                    \<and> (undisturbed 0 (TrackID (demo_job 7 1)) sched_retry_paused st_retry_mark
                          \<longrightarrow> map_of (failedJobs st_retry_paused) (TrackID (demo_job 7 1)) = None)"
    by blast
  from one em have "handle_event (demo_job 7 1) r e c = Event 7 StCompleted (Some demo_ok)"
    by simp
  with imp und track
  have out: "demo_job 7 1 \<notin> snd ` set (failedJobs st_retry_paused)"
    "map_of (failedJobs st_retry_paused) 7 = None"
    by simp_all
  from rn pc old ur2 und em out ok nd ur none q cnt show ?thesis
    by blast
qed

subsection \<open>The events of a job\<close>













subsection \<open>One terminal event per job\<close>




end
